theory Spec2Isabelle
  imports Main
begin

section \<open>The device and its surroundings\<close>

text \<open>
  The repository holds two variants of one Arduino sketch for a music-on-hold player:
  \<^verbatim>\<open>src/moh.cpp\<close> (chunks are scanned for AT-response contamination and written
  straight to the SD card) and the PSRAM variant (chunks are staged in a 2 MiB arena and
  flushed to the card). Both share \<^verbatim>\<open>checkForNewAudio\<close>, \<^verbatim>\<open>powerOnModem\<close>,
  \<^verbatim>\<open>connectNetwork\<close>, \<^verbatim>\<open>disconnectNetwork\<close>, \<^verbatim>\<open>shutdownModem\<close> and
  \<^verbatim>\<open>downloadAudioFile\<close> by name; the definitions of the PSRAM variant carry the
  suffix \<open>_psram\<close>.

  The sketch is sequential code over global state, a modem behind a serial line and an
  SD card. The model threads one record, the \<open>world\<close>, through every function. What the
  modem and the card will answer is part of the world: each answer is consumed when the
  code asks for it, and a modem whose script is used up stays silent (a probe fails, a
  wait times out, a read returns nothing).

  Bytes are \<^typ>\<open>char\<close> (8 bits), \<^verbatim>\<open>int\<close> and \<^verbatim>\<open>long\<close> are \<^typ>\<open>int\<close>,
  \<^verbatim>\<open>size_t\<close> is \<^typ>\<open>nat\<close>; the model agrees with the 32-bit code as long as
  the byte counts stay below \<open>2^31\<close>.
\<close>

datatype pin = BOARD_PWRKEY_PIN | MODEM_DTR_PIN | MODEM_RESET_PIN

datatype at_cmd =
    CFUN_RESET            \<comment> \<open>\<^verbatim>\<open>+CFUN=1,1\<close>\<close>
  | IPR nat               \<comment> \<open>\<^verbatim>\<open>+IPR=<baud>\<close>\<close>
  | NETCLOSE
  | HTTPINIT
  | HTTPPARA_URL
  | HTTPPARA_USERDATA
  | HTTPACTION
  | HTTPREAD int          \<comment> \<open>\<^verbatim>\<open>+HTTPREAD=<requestSize>\<close>\<close>
  | HTTPTERM

datatype lib_fn =
    TestAT | WaitResponse | GetSimStatus | GetRegistrationStatus | SetNetworkActive
  | GetLocalIP | WaitForNetwork | GprsConnect
  | HttpsBegin | HttpsSetUrl | HttpsSetUserAgent | HttpsAddHeader | HttpsGet | HttpsBody
  | HttpsEnd

datatype event =
    DigitalWrite pin bool     \<comment> \<open>\<open>True\<close> is HIGH\<close>
  | Delay nat                 \<comment> \<open>milliseconds\<close>
  | SerialBaud nat            \<comment> \<open>\<^verbatim>\<open>SerialAT.begin\<close> / \<^verbatim>\<open>updateBaudRate\<close>\<close>
  | SendAT at_cmd
  | Modem lib_fn              \<comment> \<open>a call into the TinyGSM library\<close>
  | ReadBytes nat             \<comment> \<open>\<^verbatim>\<open>SerialAT.readBytes\<close>, with the number of bytes it delivered\<close>
  | FileWrite nat nat         \<comment> \<open>\<^verbatim>\<open>file.write\<close>: bytes asked, bytes written\<close>
  | StopSong
  | ConnectToFS

datatype SimStatus = SIM_ERROR | SIM_READY | SIM_LOCKED | SIM_ANTITHEFT_LOCKED

datatype RegStatus =
    REG_NO_RESULT | REG_UNREGISTERED | REG_SEARCHING | REG_DENIED | REG_OK_HOME
  | REG_OK_ROAMING | REG_UNKNOWN

text \<open>
  One \<^verbatim>\<open>+HTTPREAD\<close> round of the PSRAM variant, as the modem answers it:
  \<open>hdr_polls\<close> are the outcomes of the successive
  \<^verbatim>\<open>waitResponse(1000, "+HTTPREAD:")\<close> calls that fit into the five-second window
  (\<open>None\<close>: no match; \<open>Some n\<close>: a header whose length field parses to \<open>n\<close>), and
  \<open>body\<close> are the bytes that arrive before \<^verbatim>\<open>readBytes\<close> times out.
\<close>

record chunk_reply =
  hdr_polls :: "int option list"
  body :: string

record world =
  trace :: "event list"
  baud :: nat
  fileReady :: bool
  probes :: "bool list"            \<comment> \<open>answers to \<^verbatim>\<open>modem.testAT\<close>\<close>
  acks :: "int list"               \<comment> \<open>results of \<^verbatim>\<open>modem.waitResponse\<close>; 1 is a match\<close>
  sims :: "SimStatus list"         \<comment> \<open>answers to \<^verbatim>\<open>getSimStatus\<close>\<close>
  regs :: "RegStatus list"         \<comment> \<open>answers to \<^verbatim>\<open>getRegistrationStatus\<close>\<close>
  netacts :: "bool list"           \<comment> \<open>answers to \<^verbatim>\<open>setNetworkActive\<close>\<close>
  local_ip :: string
  network_ok :: bool               \<comment> \<open>\<^verbatim>\<open>waitForNetwork\<close>\<close>
  gprs_ok :: bool                  \<comment> \<open>\<^verbatim>\<open>gprsConnect\<close>\<close>
  begin_ok :: bool                 \<comment> \<open>\<^verbatim>\<open>https_begin\<close>\<close>
  set_url_ok :: bool               \<comment> \<open>\<^verbatim>\<open>https_set_url\<close>\<close>
  get_code :: int                  \<comment> \<open>\<^verbatim>\<open>https_get\<close>: the HTTP status\<close>
  get_size :: nat                  \<comment> \<open>\<^verbatim>\<open>https_get\<close>: the declared size\<close>
  bodies :: "string list"          \<comment> \<open>what successive \<^verbatim>\<open>https_body\<close> calls put into the buffer\<close>
  action_status :: int             \<comment> \<open>status field of the \<^verbatim>\<open>+HTTPACTION:\<close> line\<close>
  action_length :: int             \<comment> \<open>length field of the \<^verbatim>\<open>+HTTPACTION:\<close> line\<close>
  chunks :: "chunk_reply list"
  psram_ok :: bool                 \<comment> \<open>\<^verbatim>\<open>ps_malloc\<close> succeeds\<close>
  psramBuf :: string               \<comment> \<open>the staged prefix of the arena\<close>
  arena_hi :: nat                  \<comment> \<open>one past the highest arena index ever written\<close>
  sd_file :: "string option"       \<comment> \<open>the file at \<^verbatim>\<open>AUDIO_FILE_PATH\<close>, if any\<close>
  sd_open_ok :: bool               \<comment> \<open>\<^verbatim>\<open>SD.open\<close> succeeds\<close>
  sd_free :: nat                   \<comment> \<open>bytes the card still accepts\<close>

definition emit :: "event \<Rightarrow> world \<Rightarrow> world" where
  "emit e w = w\<lparr>trace := trace w @ [e]\<rparr>"

definition delay :: "nat \<Rightarrow> world \<Rightarrow> world" where
  "delay ms w = emit (Delay ms) w"

definition digitalWrite :: "pin \<Rightarrow> bool \<Rightarrow> world \<Rightarrow> world" where
  "digitalWrite p v w = emit (DigitalWrite p v) w"

definition updateBaudRate :: "nat \<Rightarrow> world \<Rightarrow> world" where
  "updateBaudRate b w = (emit (SerialBaud b) w)\<lparr>baud := b\<rparr>"

definition sendAT :: "at_cmd \<Rightarrow> world \<Rightarrow> world" where
  "sendAT c w = emit (SendAT c) w"

definition testAT :: "world \<Rightarrow> bool \<times> world" where
  "testAT w =
     (let w' = emit (Modem TestAT) w in
      case probes w' of
        [] \<Rightarrow> (False, w')
      | p # ps \<Rightarrow> (p, w'\<lparr>probes := ps\<rparr>))"

definition waitResponse :: "world \<Rightarrow> int \<times> world" where
  "waitResponse w =
     (let w' = emit (Modem WaitResponse) w in
      case acks w' of
        [] \<Rightarrow> (0, w')
      | a # as \<Rightarrow> (a, w'\<lparr>acks := as\<rparr>))"

subsection \<open>The SD card\<close>

definition SD_exists :: "world \<Rightarrow> bool" where
  "SD_exists w = (sd_file w \<noteq> None)"

definition SD_remove :: "world \<Rightarrow> world" where
  "SD_remove w = w\<lparr>sd_file := None\<rparr>"

text \<open>\<^verbatim>\<open>SD.open(path, FILE_WRITE)\<close>: a fresh, empty file on success.\<close>

definition SD_open :: "world \<Rightarrow> bool \<times> world" where
  "SD_open w = (if sd_open_ok w then (True, w\<lparr>sd_file := Some []\<rparr>) else (False, w))"

text \<open>
  \<^verbatim>\<open>file.write(buf, n)\<close> appends what the card still accepts and returns how many
  bytes that was: a full card makes a short write.
\<close>

definition file_write :: "string \<Rightarrow> world \<Rightarrow> nat \<times> world" where
  "file_write data w =
     (let n = min (length data) (sd_free w) in
      (n, (emit (FileWrite (length data) n) w)
            \<lparr>sd_file := Some (case sd_file w of None \<Rightarrow> take n data | Some old \<Rightarrow> old @ take n data),
             sd_free := sd_free w - n\<rparr>))"

section \<open>The PSRAM variant: download into the staging arena\<close>

definition LARGE_BUFFER_SIZE :: nat where
  "LARGE_BUFFER_SIZE = 2048 * 1024"

definition MODEM_READ_SIZE :: nat where
  "MODEM_READ_SIZE = 1024"

text \<open>
  The inner loop \<^verbatim>\<open>while (len == 0 && millis() - loopStart < 5000)\<close>: polls that do
  not match and headers of length 0 are skipped; when the window closes \<open>len\<close> is still 0.
\<close>

fun await_header :: "int option list \<Rightarrow> int" where
  "await_header [] = 0"
| "await_header (None # ps) = await_header ps"
| "await_header (Some n # ps) = (if n = 0 then await_header ps else n)"

record locals =
  totalDownloaded :: int
  bufferOffset :: nat

datatype flow = Break | Continue

text \<open>
  \<^verbatim>\<open>SerialAT.readBytes(psramBuf + bufferOffset, len)\<close> stores at most \<open>len\<close> bytes
  from the offset on; nothing in the code compares \<open>bufferOffset + len\<close> with the arena
  size, so the model only records how far the store reached (\<open>arena_hi\<close>).
\<close>

definition readBytes :: "nat \<Rightarrow> int \<Rightarrow> string \<Rightarrow> world \<Rightarrow> int \<times> world" where
  "readBytes off len avail w =
     (let data = take (nat len) avail in
      (int (length data),
       (emit (ReadBytes (length data)) w)
         \<lparr>psramBuf := take off (psramBuf w) @ data,
          arena_hi := max (arena_hi w) (off + length data)\<rparr>))"

text \<open>\<^verbatim>\<open>int requestSize = min((long)MODEM_READ_SIZE, contentLength - totalDownloaded);\<close>\<close>

definition request_size :: "int \<Rightarrow> locals \<Rightarrow> int" where
  "request_size contentLength s = min (int MODEM_READ_SIZE) (contentLength - totalDownloaded s)"

text \<open>
  One iteration of the download loop (the body of
  \<^verbatim>\<open>while (totalDownloaded < contentLength)\<close>). The polls for the chunk header are
  answered from the round's reply (\<open>hdr_polls\<close>); the wait for the trailing
  \<^verbatim>\<open>+HTTPREAD: 0\<close>, whose result the code ignores, takes the next entry of \<open>acks\<close>
  like every other \<^verbatim>\<open>waitResponse\<close>.
\<close>

definition dl_step :: "int \<Rightarrow> locals \<Rightarrow> world \<Rightarrow> flow \<times> locals \<times> world" where
  "dl_step contentLength s w =
     (let requestSize = request_size contentLength s;
          w1 = sendAT (HTTPREAD requestSize) w
      in case chunks w1 of
           [] \<Rightarrow> (Break, s, w1)
         | c # cs \<Rightarrow>
             (let w2 = w1\<lparr>chunks := cs\<rparr>;
                  len = await_header (hdr_polls c)
              in if len > 0 then
                   (let (bytesRecv, w3) = readBytes (bufferOffset s) len (body c) w2
                    in if bytesRecv \<noteq> len then (Break, s, w3)
                       else
                         (let s1 = s\<lparr>bufferOffset := bufferOffset s + nat len,
                                     totalDownloaded := totalDownloaded s + len\<rparr>;
                              (trailer, w3') = waitResponse w3
                          in if bufferOffset s1 \<ge> LARGE_BUFFER_SIZE
                                \<or> totalDownloaded s1 = contentLength
                             then
                               (let (written, w4) =
                                      file_write (take (bufferOffset s1) (psramBuf w3')) w3'
                                in if written \<noteq> bufferOffset s1 then (Break, s1, w4)
                                   else (Continue, s1\<lparr>bufferOffset := 0\<rparr>, w4))
                             else (Continue, s1, w3')))
                 else (Break, s, w2)))"

lemma dl_step_consumes:
  "dl_step cl s w = (Continue, s', w') \<Longrightarrow> length (chunks w') < length (chunks w)"
  by (auto simp: dl_step_def Let_def sendAT_def emit_def readBytes_def file_write_def
      waitResponse_def split: list.splits if_splits prod.splits)

function dl_loop :: "int \<Rightarrow> locals \<Rightarrow> world \<Rightarrow> locals \<times> world" where
  "dl_loop contentLength s w =
     (if totalDownloaded s < contentLength then
        (case dl_step contentLength s w of
           (Break, s', w') \<Rightarrow> (s', w')
         | (Continue, s', w') \<Rightarrow> dl_loop contentLength s' w')
      else (s, w))"
  by pat_completeness auto
termination
  by (relation "measure (\<lambda>(cl, s, w). length (chunks w))") (auto dest: dl_step_consumes [OF sym])

declare dl_loop.simps [simp del]

text \<open>
  The states the loop passes through: the state at each test of the loop condition, and
  the state a \<^verbatim>\<open>break\<close> leaves behind.
\<close>

function dl_states :: "int \<Rightarrow> locals \<Rightarrow> world \<Rightarrow> (locals \<times> world) list" where
  "dl_states contentLength s w =
     (s, w) #
     (if totalDownloaded s < contentLength then
        (case dl_step contentLength s w of
           (Break, s', w') \<Rightarrow> [(s', w')]
         | (Continue, s', w') \<Rightarrow> dl_states contentLength s' w')
      else [])"
  by pat_completeness auto
termination
  by (relation "measure (\<lambda>(cl, s, w). length (chunks w))") (auto dest: dl_step_consumes [OF sym])

declare dl_states.simps [simp del]

text \<open>The chunk length the next round will read from the modem's header.\<close>

definition declared_len :: "world \<Rightarrow> int" where
  "declared_len w = (case chunks w of [] \<Rightarrow> 0 | c # cs \<Rightarrow> await_header (hdr_polls c))"

text \<open>
  \<open>served R\<close>: in every round of the run, the declared chunk length stands in relation
  \<open>R\<close> to the requested size (\<open>R = (\<le>)\<close>: the modem never declares more than was asked;
  \<open>R = (=)\<close>: it declares exactly what was asked).
\<close>

function served :: "(int \<Rightarrow> int \<Rightarrow> bool) \<Rightarrow> int \<Rightarrow> locals \<Rightarrow> world \<Rightarrow> bool" where
  "served R contentLength s w =
     (if totalDownloaded s < contentLength then
        R (declared_len w) (request_size contentLength s) \<and>
        (case dl_step contentLength s w of
           (Break, s', w') \<Rightarrow> True
         | (Continue, s', w') \<Rightarrow> served R contentLength s' w')
      else True)"
  by pat_completeness auto
termination
  by (relation "measure (\<lambda>(R, cl, s, w). length (chunks w))") (auto dest: dl_step_consumes [OF sym])

declare served.simps [simp del]

text \<open>
  \<^verbatim>\<open>downloadAudioFile\<close> up to the open file: \<open>Inl w\<close> is a \<^verbatim>\<open>return false\<close> that
  leaves the world \<open>w\<close>, \<open>Inr (contentLength, w)\<close> enters the loop.
\<close>

definition open_transfer :: "world \<Rightarrow> world + int \<times> world" where
  "open_transfer w0 =
     (let (r1, w1) = waitResponse (sendAT HTTPINIT w0) in
      if r1 \<noteq> 1 then Inl w1 else
      let (r2, w2) = waitResponse (sendAT HTTPPARA_URL w1) in
      if r2 \<noteq> 1 then Inl w2 else
      let (r3, w3) = waitResponse (sendAT HTTPPARA_USERDATA w2) in
      let (r4, w4) = waitResponse (sendAT HTTPACTION w3) in
      if r4 \<noteq> 1 then Inl (sendAT HTTPTERM w4) else
      let (r5, w5) = waitResponse w4 in
      if r5 \<noteq> 1 then Inl (sendAT HTTPTERM w5) else
      let status = action_status w5; contentLength = action_length w5 in
      if status \<noteq> 200 \<or> contentLength \<le> 0 then Inl (sendAT HTTPTERM w5) else
      let w6 = (if SD_exists w5 then SD_remove w5 else w5);
          (opened, w7) = SD_open w6 in
      if \<not> opened then Inl (sendAT HTTPTERM w7) else Inr (contentLength, w7))"

definition downloadAudioFile_psram :: "world \<Rightarrow> bool \<times> world" where
  "downloadAudioFile_psram w0 =
     (case open_transfer w0 of
        Inl w \<Rightarrow> (False, w)
      | Inr (contentLength, w7) \<Rightarrow>
          (let (s, w8) = dl_loop contentLength \<lparr>totalDownloaded = 0, bufferOffset = 0\<rparr> w7;
               (r9, w9) = waitResponse (sendAT HTTPTERM w8)
           in (totalDownloaded s = contentLength, w9)))"

section \<open>\<^verbatim>\<open>moh.cpp\<close>: download with the contamination scan\<close>

definition CHUNK_SIZE :: nat where
  "CHUNK_SIZE = 1024"

definition is_eol :: "char \<Rightarrow> bool" where
  "is_eol c = (c = CHR 0x0D \<or> c = CHR 0x0A)"

text \<open>
  The scans run over \<open>buffer[0 .. bytesRead)\<close>; the model's buffer is exactly that slice,
  so \<open>bytesRead\<close> is its length. A loop \<^verbatim>\<open>for (i = a; i < b; i++) if (P(i)) { ...; break; }\<close>
  is \<open>find P [a..<b]\<close>, the search for the first index at which the loop leaves. The
  bounds are the source's, read over \<^typ>\<open>nat\<close>: \<^verbatim>\<open>i < bytesRead - 10\<close> with
  \<open>i \<ge> 0\<close> is \<open>i < bytesRead - 10\<close> with truncating subtraction. Every index the
  scans read is below \<open>bytesRead\<close>.
\<close>

definition at_response_at :: "string \<Rightarrow> nat \<Rightarrow> bool" where
  "at_response_at buffer i = (is_eol (buffer ! i) \<and> buffer ! (i + 1) = CHR ''+'')"

text \<open>
  ``Check beginning of buffer for leftover AT responses'': the first \<open>i < 100\<close> with a
  line end followed by \<open>+\<close>, then forward from \<open>j = i\<close> to the first \<^verbatim>\<open>'\n'\<close>;
  the result is \<open>cleanStart\<close> (0 when nothing is found).
\<close>

definition scan_start :: "string \<Rightarrow> nat" where
  "scan_start buffer =
     (let bytesRead = length buffer in
      case find (at_response_at buffer) [0 ..< min (bytesRead - 10) 100] of
        None \<Rightarrow> 0
      | Some i \<Rightarrow>
          (case find (\<lambda>j. buffer ! j = CHR 0x0A) [i ..< bytesRead - 1] of
             None \<Rightarrow> 0
           | Some j \<Rightarrow> j + 1))"

text \<open>\<^verbatim>\<open>while (cleanEnd > 0 && (buffer[cleanEnd] == '\r' || buffer[cleanEnd] == '\n')) cleanEnd--;\<close>\<close>

fun skip_eols :: "string \<Rightarrow> nat \<Rightarrow> nat" where
  "skip_eols buffer 0 = 0"
| "skip_eols buffer (Suc e) = (if is_eol (buffer ! Suc e) then skip_eols buffer e else Suc e)"

text \<open>
  ``Check end of buffer for partial AT responses'': \<open>i\<close> runs down from \<open>bytesRead - 1\<close>
  while \<^verbatim>\<open>i > bytesRead - 50 && i > 0\<close>; the result is \<open>cleanEnd\<close> (\<open>bytesRead\<close> when
  nothing is found).
\<close>

definition scan_end :: "string \<Rightarrow> nat" where
  "scan_end buffer =
     (let bytesRead = length buffer in
      case find (\<lambda>i. buffer ! i = CHR ''+'' \<and> i > 0 \<and> is_eol (buffer ! (i - 1)))
             (rev [max 1 (bytesRead - 49) ..< bytesRead]) of
        None \<Rightarrow> bytesRead
      | Some i \<Rightarrow> skip_eols buffer (i - 1) + 1)"

definition http_token_at :: "string \<Rightarrow> nat \<Rightarrow> bool" where
  "http_token_at buffer i =
     (is_eol (buffer ! i) \<and> buffer ! (i + 1) = CHR ''+'' \<and> buffer ! (i + 2) = CHR ''H''
      \<and> buffer ! (i + 3) = CHR ''T'' \<and> buffer ! (i + 4) = CHR ''T''
      \<and> buffer ! (i + 5) = CHR ''P'')"

text \<open>``Check middle of buffer for contamination'': \<open>i\<close> from \<open>cleanStart + 10\<close> below \<open>cleanEnd - 10\<close>.\<close>

definition scan_middle :: "string \<Rightarrow> nat \<Rightarrow> nat \<Rightarrow> bool" where
  "scan_middle buffer cleanStart cleanEnd =
     list_ex (http_token_at buffer) [cleanStart + 10 ..< cleanEnd - 10]"

definition https_end :: "world \<Rightarrow> world" where
  "https_end w = emit (Modem HttpsEnd) w"

text \<open>
  \<^verbatim>\<open>modem.https_body(buffer, CHUNK_SIZE)\<close> fills at most \<open>CHUNK_SIZE\<close> bytes; a result
  \<open>\<le> 0\<close> (nothing read, or an error code) is the empty buffer.
\<close>

definition https_body :: "world \<Rightarrow> string \<times> world" where
  "https_body w =
     (let w' = emit (Modem HttpsBody) w in
      case bodies w' of
        [] \<Rightarrow> ([], w')
      | b # bs \<Rightarrow> (take CHUNK_SIZE b, w'\<lparr>bodies := bs\<rparr>))"

datatype rd_flow = ReturnFalse | BreakOut | NextChunk

text \<open>One iteration of \<^verbatim>\<open>while (totalRead < totalSize)\<close>.\<close>

definition rd_step :: "nat \<Rightarrow> world \<Rightarrow> rd_flow \<times> nat \<times> world" where
  "rd_step totalRead w =
     (let (buffer, w1) = https_body w;
          bytesRead = length buffer
      in if bytesRead \<le> 0 then (ReturnFalse, totalRead, https_end w1)
         else
           (let cleanStart = scan_start buffer;
                cleanEnd = scan_end buffer
            in if scan_middle buffer cleanStart cleanEnd
               then (ReturnFalse, totalRead, https_end w1)
               else if cleanStart < cleanEnd then
                 (let cleanLength = cleanEnd - cleanStart;
                      (written, w2) = file_write (take cleanLength (drop cleanStart buffer)) w1
                  in if written \<noteq> cleanLength then (ReturnFalse, totalRead, https_end w2)
                     else if bytesRead < CHUNK_SIZE
                     then (BreakOut, totalRead + cleanLength, w2)
                     else (NextChunk, totalRead + cleanLength, w2))
               else (ReturnFalse, totalRead, https_end w1)))"

lemma rd_step_consumes:
  "rd_step t w = (NextChunk, t', w') \<Longrightarrow> length (bodies w') < length (bodies w)"
  by (auto simp: rd_step_def https_body_def Let_def emit_def file_write_def https_end_def
      split: list.splits if_splits prod.splits)

text \<open>
  The loop: \<open>False\<close> when the function returned \<^verbatim>\<open>false\<close> from inside it, \<open>True\<close>
  when control reached the code after the loop.
\<close>

function rd_loop :: "nat \<Rightarrow> nat \<Rightarrow> world \<Rightarrow> bool \<times> nat \<times> world" where
  "rd_loop totalSize totalRead w =
     (if totalRead < totalSize then
        (case rd_step totalRead w of
           (ReturnFalse, t, w') \<Rightarrow> (False, t, w')
         | (BreakOut, t, w') \<Rightarrow> (True, t, w')
         | (NextChunk, t, w') \<Rightarrow> rd_loop totalSize t w')
      else (True, totalRead, w))"
  by pat_completeness auto
termination
  by (relation "measure (\<lambda>(sz, t, w). length (bodies w))") (auto dest: rd_step_consumes [OF sym])

declare rd_loop.simps [simp del]

definition downloadAudioFile :: "world \<Rightarrow> bool \<times> world" where
  "downloadAudioFile w0 =
     (let w1 = emit (Modem HttpsBegin) w0 in
      if \<not> begin_ok w1 then (False, w1) else
      let w2 = emit (Modem HttpsSetUrl) w1 in
      if \<not> set_url_ok w2 then (False, https_end w2) else
      let w3 = emit (Modem HttpsAddHeader) (emit (Modem HttpsAddHeader)
                 (emit (Modem HttpsAddHeader) (emit (Modem HttpsSetUserAgent) w2)));
          w4 = emit (Modem HttpsGet) w3;
          totalSize = get_size w4;
          httpCode = get_code w4 in
      if httpCode \<noteq> 200 then (False, https_end w4) else
      let w5 = (if SD_exists w4 then SD_remove w4 else w4);
          (opened, w6) = SD_open w5 in
      if \<not> opened then (False, https_end w6) else
      let (completed, totalRead, w7) = rd_loop totalSize 0 w6 in
      if \<not> completed then (False, w7) else (True, https_end w7))"

section \<open>Link lifecycle\<close>

definition MODEM_POWERON_PULSE_WIDTH_MS :: nat where
  "MODEM_POWERON_PULSE_WIDTH_MS = 100"

definition MODEM_POWEROFF_PULSE_WIDTH_MS :: nat where
  "MODEM_POWEROFF_PULSE_WIDTH_MS = 3000"

text \<open>\<^verbatim>\<open>for (int i = 0; i < 10; i++) { if (modem.testAT(1000)) { alreadyOn = true; break; } delay(500); }\<close>,
  by the number of rounds left.\<close>

fun probe_alive :: "nat \<Rightarrow> world \<Rightarrow> bool \<times> world" where
  "probe_alive 0 w = (False, w)"
| "probe_alive (Suc k) w =
     (case testAT w of
        (True, w') \<Rightarrow> (True, w')
      | (False, w') \<Rightarrow> probe_alive k (delay 500 w'))"

text \<open>
  \<^verbatim>\<open>while (!modem.testAT(1000)) { if (retry++ > lim) <give up>; <pause>; }\<close>: \<open>True\<close>
  when a probe was answered, \<open>False\<close> when the loop gave up, which is at the failed probe
  that finds \<open>retry > lim\<close>.
\<close>

function wait_at :: "nat \<Rightarrow> (world \<Rightarrow> world) \<Rightarrow> nat \<Rightarrow> world \<Rightarrow> bool \<times> world" where
  "wait_at lim pause retry w =
     (case testAT w of
        (True, w') \<Rightarrow> (True, w')
      | (False, w') \<Rightarrow>
          if retry > lim then (False, w') else wait_at lim pause (Suc retry) (pause w'))"
  by pat_completeness auto
termination
  by (relation "measure (\<lambda>(lim, pause, retry, w). Suc lim - retry)") auto

declare wait_at.simps [simp del]

definition hard_reset :: "world \<Rightarrow> world" where
  "hard_reset w =
     (let w1 = digitalWrite MODEM_RESET_PIN False w;
          w2 = delay 100 w1;
          w3 = digitalWrite MODEM_RESET_PIN True w2;
          w4 = delay 2600 w3;
          w5 = digitalWrite MODEM_RESET_PIN False w4
      in delay 5000 w5)"

text \<open>The part of \<^verbatim>\<open>powerOnModem\<close> above ``Switch modem to high speed''.\<close>

definition bring_up :: "world \<Rightarrow> bool \<times> world" where
  "bring_up w0 =
     (let w1 = updateBaudRate 115200 w0;
          w2 = digitalWrite MODEM_DTR_PIN False w1;
          w3 = digitalWrite BOARD_PWRKEY_PIN False w2;
          (alreadyOn, w4) = probe_alive 10 w3
      in if \<not> alreadyOn then
           (let w5 = digitalWrite BOARD_PWRKEY_PIN True w4;
                w6 = delay MODEM_POWERON_PULSE_WIDTH_MS w5;
                w7 = digitalWrite BOARD_PWRKEY_PIN False w6;
                w8 = delay 3000 w7;
                (up, w9) = wait_at 3 (delay 500) 0 w8
            in if up then (True, w9) else wait_at 10 (delay 500) 0 (hard_reset w9))
         else
           (let (r, w5) = waitResponse (sendAT CFUN_RESET w4);
                w6 = delay 5000 w5
            in wait_at 20 (delay 500) 0 w6))"

text \<open>The rest of \<^verbatim>\<open>powerOnModem\<close>: raise the line to 921600 baud.\<close>

definition raise_speed :: "world \<Rightarrow> bool \<times> world" where
  "raise_speed w0 =
     (let (r, w1) = waitResponse (sendAT (IPR 921600) w0) in
      if r \<noteq> 1 then (False, w1) else
      let w2 = delay 100 (updateBaudRate 921600 (delay 100 w1));
          (verified, w3) = wait_at 5 id 0 w2 in
      if verified then (True, w3) else
      let w4 = updateBaudRate 115200 w3;
          (r', w5) = waitResponse (sendAT (IPR 115200) w4)
      in (True, w5))"

definition powerOnModem :: "world \<Rightarrow> bool \<times> world" where
  "powerOnModem w =
     (let (up, w') = bring_up w in
      if \<not> up then (False, w') else raise_speed w')"

definition bring_up_psram :: "world \<Rightarrow> bool \<times> world" where
  "bring_up_psram w0 =
     (let w1 = updateBaudRate 115200 w0;
          w2 = digitalWrite MODEM_DTR_PIN False w1;
          w3 = digitalWrite BOARD_PWRKEY_PIN False w2;
          (alreadyOn, w4) = probe_alive 10 w3
      in if \<not> alreadyOn then
           wait_at 20 (delay 500) 0
             (delay 3000 (digitalWrite BOARD_PWRKEY_PIN False
                (delay 100 (digitalWrite BOARD_PWRKEY_PIN True w4))))
         else
           (let (r, w5) = waitResponse (sendAT CFUN_RESET w4)
            in wait_at 20 (delay 500) 0 (delay 5000 w5)))"

definition raise_speed_psram :: "world \<Rightarrow> bool \<times> world" where
  "raise_speed_psram w0 =
     (let (r, w1) = waitResponse (sendAT (IPR 921600) w0) in
      if r \<noteq> 1 then (False, w1)
      else (True, delay 100 (updateBaudRate 921600 (delay 100 w1))))"

definition powerOnModem_psram :: "world \<Rightarrow> bool \<times> world" where
  "powerOnModem_psram w =
     (let (up, w') = bring_up_psram w in
      if \<not> up then (False, w') else raise_speed_psram w')"

definition shutdownModem :: "world \<Rightarrow> world" where
  "shutdownModem w =
     (let w1 = digitalWrite BOARD_PWRKEY_PIN False w;
          w2 = delay 100 w1;
          w3 = digitalWrite BOARD_PWRKEY_PIN True w2;
          w4 = delay MODEM_POWEROFF_PULSE_WIDTH_MS w3;
          w5 = digitalWrite BOARD_PWRKEY_PIN False w4
      in delay 1000 w5)"

section \<open>Network session\<close>

definition getSimStatus :: "world \<Rightarrow> SimStatus \<times> world" where
  "getSimStatus w =
     (let w' = emit (Modem GetSimStatus) w in
      case sims w' of
        [] \<Rightarrow> (SIM_ERROR, w')
      | x # xs \<Rightarrow> (x, w'\<lparr>sims := xs\<rparr>))"

definition getRegistrationStatus :: "world \<Rightarrow> RegStatus \<times> world" where
  "getRegistrationStatus w =
     (let w' = emit (Modem GetRegistrationStatus) w in
      case regs w' of
        [] \<Rightarrow> (REG_NO_RESULT, w')
      | x # xs \<Rightarrow> (x, w'\<lparr>regs := xs\<rparr>))"

definition setNetworkActive :: "world \<Rightarrow> bool \<times> world" where
  "setNetworkActive w =
     (let w' = emit (Modem SetNetworkActive) w in
      case netacts w' of
        [] \<Rightarrow> (False, w')
      | x # xs \<Rightarrow> (x, w'\<lparr>netacts := xs\<rparr>))"

text \<open>
  \<^verbatim>\<open>while (sim != SIM_READY && timeout-- > 0)\<close>, by the value of \<open>timeout\<close>. \<open>None\<close>
  is the \<^verbatim>\<open>return false\<close> on \<open>SIM_LOCKED\<close>; \<open>Some sim\<close> is the status the loop ended
  with.
\<close>

fun sim_loop :: "nat \<Rightarrow> SimStatus \<Rightarrow> world \<Rightarrow> SimStatus option \<times> world" where
  "sim_loop 0 sim w = (Some sim, w)"
| "sim_loop (Suc timeout) sim w =
     (if sim \<noteq> SIM_READY then
        (let (sim', w') = getSimStatus w
         in if sim' = SIM_LOCKED then (None, w')
            else if sim' \<noteq> SIM_READY then sim_loop timeout sim' (delay 1000 w')
            else sim_loop timeout sim' w')
      else (Some sim, w))"

text \<open>
  \<^verbatim>\<open>while (timeout-- > 0)\<close> of the registration poll. \<open>None\<close> is the
  \<^verbatim>\<open>return false\<close> on \<open>REG_DENIED\<close>.
\<close>

fun reg_loop :: "nat \<Rightarrow> RegStatus \<Rightarrow> world \<Rightarrow> RegStatus option \<times> world" where
  "reg_loop 0 status w = (Some status, w)"
| "reg_loop (Suc timeout) status w =
     (let (status', w') = getRegistrationStatus w
      in if status' = REG_OK_HOME \<or> status' = REG_OK_ROAMING then (Some status', w')
         else if status' = REG_DENIED then (None, w')
         else reg_loop timeout status' (delay 1000 w'))"

text \<open>\<^verbatim>\<open>while (retry-- > 0) { if (modem.setNetworkActive()) { netOpen = true; break; } delay(2000); }\<close>\<close>

fun net_loop :: "nat \<Rightarrow> world \<Rightarrow> bool \<times> world" where
  "net_loop 0 w = (False, w)"
| "net_loop (Suc retry) w =
     (case setNetworkActive w of
        (True, w') \<Rightarrow> (True, w')
      | (False, w') \<Rightarrow> net_loop retry (delay 2000 w'))"

definition connectNetwork :: "world \<Rightarrow> bool \<times> world" where
  "connectNetwork w0 =
     (case sim_loop 30 SIM_ERROR w0 of
        (None, w1) \<Rightarrow> (False, w1)
      | (Some sim, w1) \<Rightarrow>
          if sim \<noteq> SIM_READY then (False, w1) else
          (case reg_loop 60 REG_NO_RESULT w1 of
             (None, w2) \<Rightarrow> (False, w2)
           | (Some status, w2) \<Rightarrow>
               if status \<noteq> REG_OK_HOME \<and> status \<noteq> REG_OK_ROAMING then (False, w2) else
               let (r, w3) = waitResponse (sendAT NETCLOSE w2);
                   (netOpen, w4) = net_loop 3 w3 in
               if \<not> netOpen then (False, w4) else
               let w5 = emit (Modem GetLocalIP) w4;
                   ip = local_ip w5 in
               if length ip = 0 \<or> ip = ''0.0.0.0'' then (False, w5) else (True, w5)))"

definition connectNetwork_psram :: "world \<Rightarrow> bool \<times> world" where
  "connectNetwork_psram w0 =
     (let w1 = emit (Modem WaitForNetwork) w0 in
      if \<not> network_ok w1 then (False, w1) else
      let (r, w2) = waitResponse (sendAT NETCLOSE w1);
          w3 = emit (Modem GprsConnect) w2 in
      if \<not> gprs_ok w3 then (False, w3) else (True, w3))"

definition disconnectNetwork :: "world \<Rightarrow> world" where
  "disconnectNetwork w =
     (let (r1, w1) = waitResponse (sendAT HTTPTERM w);
          (r2, w2) = waitResponse (sendAT NETCLOSE w1)
      in w2)"

section \<open>The refresh cycle\<close>

definition checkForNewAudio :: "world \<Rightarrow> world" where
  "checkForNewAudio w0 =
     (let wasPlaying = fileReady w0;
          (on, w1) = powerOnModem w0 in
      if \<not> on then shutdownModem w1 else
      let (net, w2) = connectNetwork w1 in
      if \<not> net then shutdownModem w2 else
      let (downloadSuccess, w3) = downloadAudioFile w2;
          w4 = shutdownModem (disconnectNetwork w3) in
      if downloadSuccess then
        (let w5 = w4\<lparr>fileReady := True\<rparr>;
             w6 = (if wasPlaying then delay 100 (emit StopSong w5) else w5)
         in emit ConnectToFS w6)
      else w4)"

definition checkForNewAudio_psram :: "world \<Rightarrow> world" where
  "checkForNewAudio_psram w =
     (let wasPlaying = fileReady w;
          w0 = (if wasPlaying then emit StopSong w else w);
          resume = (\<lambda>v. if wasPlaying then emit ConnectToFS v else v);
          (on, w1) = powerOnModem_psram w0 in
      if \<not> on then resume (shutdownModem w1) else
      let (net, w2) = connectNetwork_psram w1 in
      if \<not> net then resume (shutdownModem w2) else
      if \<not> psram_ok w2 then resume (shutdownModem (disconnectNetwork w2)) else
      let (downloadSuccess, w3) = downloadAudioFile_psram (w2\<lparr>psramBuf := [], arena_hi := 0\<rparr>);
          w4 = shutdownModem (disconnectNetwork w3) in
      if downloadSuccess then emit ConnectToFS (w4\<lparr>fileReady := True\<rparr>)
      else resume w4)"

text \<open>Events that act on the modem: its control lines, its serial line, its commands.\<close>

fun touches_modem :: "event \<Rightarrow> bool" where
  "touches_modem (DigitalWrite p v) = True"
| "touches_modem (SerialBaud b) = True"
| "touches_modem (SendAT c) = True"
| "touches_modem (Modem f) = True"
| "touches_modem (ReadBytes n) = True"
| "touches_modem (Delay ms) = False"
| "touches_modem (FileWrite a b) = False"
| "touches_modem StopSong = False"
| "touches_modem ConnectToFS = False"

definition shutdown_pulse :: "event list" where
  "shutdown_pulse =
     [DigitalWrite BOARD_PWRKEY_PIN False, Delay 100,
      DigitalWrite BOARD_PWRKEY_PIN True, Delay 3000,
      DigitalWrite BOARD_PWRKEY_PIN False, Delay 1000]"

text \<open>
  A world to start examples from: nothing recorded, no file on the card, and a modem and
  a card that answer nothing.
\<close>

definition silent :: world where
  "silent =
     \<lparr>trace = [], baud = 0, fileReady = False, probes = [], acks = [], sims = [], regs = [],
      netacts = [], local_ip = [], network_ok = False, gprs_ok = False, begin_ok = False,
      set_url_ok = False, get_code = 0, get_size = 0, bodies = [], action_status = 0,
      action_length = 0, chunks = [], psram_ok = False, psramBuf = [], arena_hi = 0,
      sd_file = None, sd_open_ok = False, sd_free = 0\<rparr>"

text \<open>The events a run added to the trace.\<close>

definition new_events :: "world \<Rightarrow> world \<Rightarrow> event list" where
  "new_events w w' = drop (length (trace w)) (trace w')"

text \<open>Events that take payload from the transport.\<close>

fun payload_read :: "event \<Rightarrow> bool" where
  "payload_read (ReadBytes n) = True"
| "payload_read (SendAT (HTTPREAD n)) = True"
| "payload_read (Modem HttpsBody) = True"
| "payload_read e = False"

section \<open>Notions used in the statements\<close>

text \<open>The locals after a chunk of \<open>len\<close> bytes was staged, and the test that follows it.\<close>

definition staged :: "locals \<Rightarrow> int \<Rightarrow> locals" where
  "staged s len =
     s\<lparr>bufferOffset := bufferOffset s + nat len, totalDownloaded := totalDownloaded s + len\<rparr>"

definition flush_due :: "int \<Rightarrow> locals \<Rightarrow> bool" where
  "flush_due contentLength s =
     (bufferOffset s \<ge> LARGE_BUFFER_SIZE \<or> totalDownloaded s = contentLength)"

text \<open>
  What holds of the arena whenever the loop condition is tested, in a run whose chunks
  all have the requested length.
\<close>

definition at_head :: "locals \<Rightarrow> world \<Rightarrow> bool" where
  "at_head s w =
     (bufferOffset s < LARGE_BUFFER_SIZE \<and> bufferOffset s mod MODEM_READ_SIZE = 0
      \<and> arena_hi w \<le> LARGE_BUFFER_SIZE)"

text \<open>
  The next round comes up short: the modem is silent, sends no usable chunk header, or
  delivers fewer bytes than the header declares.
\<close>

definition stream_short :: "world \<Rightarrow> bool" where
  "stream_short w =
     (case chunks w of
        [] \<Rightarrow> True
      | c # cs \<Rightarrow> await_header (hdr_polls c) \<le> 0
                 \<or> int (length (body c)) < await_header (hdr_polls c))"

text \<open>A download whose loop meets a short round while bytes are still missing.\<close>

definition truncated_run :: "world \<Rightarrow> bool" where
  "truncated_run w0 =
     (case open_transfer w0 of
        Inl w \<Rightarrow> False
      | Inr (contentLength, w7) \<Rightarrow>
          list_ex (\<lambda>(s, w). totalDownloaded s < contentLength \<and> stream_short w)
            (dl_states contentLength \<lparr>totalDownloaded = 0, bufferOffset = 0\<rparr> w7))"

text \<open>A chunk the scans leave as it is: nothing is stripped at either end, no token inside.\<close>

definition passes_scans :: "string \<Rightarrow> bool" where
  "passes_scans b = (scan_start b = 0 \<and> scan_end b = length b \<and> \<not> scan_middle b 0 (length b))"

section \<open>Example worlds\<close>

text \<open>PSRAM variant: six bytes declared, the second round delivers one byte of three.\<close>

definition w_short :: world where
  "w_short =
     silent\<lparr>acks := [1, 1, 1, 1, 1], action_status := 200, action_length := 6,
       sd_open_ok := True, sd_free := 100,
       chunks := [\<lparr>hdr_polls = [Some 3], body = ''abc''\<rparr>,
                  \<lparr>hdr_polls = [Some 3], body = ''d''\<rparr>]\<rparr>"

text \<open>\<^verbatim>\<open>moh.cpp\<close>: two bytes declared, one byte delivered, then the stream ends.\<close>

definition w_warn :: world where
  "w_warn =
     silent\<lparr>begin_ok := True, set_url_ok := True, get_code := 200, get_size := 2,
       sd_open_ok := True, sd_free := 10, bodies := [''A'']\<rparr>"

text \<open>
  \<^verbatim>\<open>moh.cpp\<close>: 1025 bytes declared; one full chunk arrives, then the stream ends on the
  chunk boundary.
\<close>

definition w_boundary :: world where
  "w_boundary =
     silent\<lparr>begin_ok := True, set_url_ok := True, get_code := 200, get_size := 1025,
       sd_open_ok := True, sd_free := 10000, bodies := [replicate 1024 (CHR ''a'')]\<rparr>"

text \<open>
  \<^verbatim>\<open>moh.cpp\<close>: 5000 bytes declared; one full chunk and one byte arrive, then the stream
  ends inside the second chunk.
\<close>

definition w_inside :: world where
  "w_inside =
     silent\<lparr>begin_ok := True, set_url_ok := True, get_code := 200, get_size := 5000,
       sd_open_ok := True, sd_free := 10000, bodies := [replicate 1024 (CHR ''a''), ''A'']\<rparr>"

text \<open>
  A full chunk of 1024 bytes: \<^verbatim>\<open>"\r+"\<close>, filler, and the token \<^verbatim>\<open>"\n+HTTP"\<close> at
  index 500.
\<close>

definition tainted :: string where
  "tainted = [CHR 0x0D, CHR ''+''] @ replicate 498 (CHR ''a'') @ [CHR 0x0A] @ ''+HTTP''
             @ replicate 518 (CHR ''a'')"

definition w_tainted :: world where
  "w_tainted =
     silent\<lparr>begin_ok := True, set_url_ok := True, get_code := 200, get_size := 523,
       sd_open_ok := True, sd_free := 10000, bodies := [tainted]\<rparr>"

text \<open>A chunk of 166 bytes with the token at index 100 and nothing at its edges.\<close>

definition edge_free :: string where
  "edge_free = replicate 100 (CHR ''a'') @ [CHR 0x0A] @ ''+HTTP'' @ replicate 60 (CHR ''a'')"

text \<open>PSRAM variant: 1030 bytes in a chunk of 1024 and a chunk of 6.\<close>

definition w_two :: world where
  "w_two =
     silent\<lparr>chunks := [\<lparr>hdr_polls = [None, Some 0, Some 1024], body = replicate 1024 (CHR ''a'')\<rparr>,
                       \<lparr>hdr_polls = [Some 6], body = ''tail..''\<rparr>],
       sd_file := Some [], sd_free := 5000\<rparr>"

text \<open>PSRAM variant: the modem declares (and delivers) more than was asked for.\<close>

definition w_greedy :: world where
  "w_greedy =
     silent\<lparr>chunks := [\<lparr>hdr_polls = [Some 20], body = ''0123456789abcdefghij''\<rparr>],
       sd_file := Some [], sd_free := 5000\<rparr>"

definition w_flood :: world where
  "w_flood =
     silent\<lparr>chunks := [\<lparr>hdr_polls = [Some 3000000], body = replicate 3000000 (CHR ''a'')\<rparr>],
       sd_file := Some [], sd_free := 5000\<rparr>"

definition w_cardfull :: world where
  "w_cardfull =
     silent\<lparr>acks := [1, 1, 1, 1, 1], action_status := 200, action_length := 3,
       chunks := [\<lparr>hdr_polls = [None, Some 0, Some 3], body = ''abc''\<rparr>],
       sd_open_ok := True, sd_free := 0, sd_file := Some ''old''\<rparr>"

definition leaky :: string where
  "leaky = [CHR 0x0A] @ ''+HTTPREAD: 42'' @ [CHR 0x0D, CHR 0x0A] @ replicate 42 (CHR ''A'')"

definition w_leaky :: world where
  "w_leaky =
     silent\<lparr>begin_ok := True, set_url_ok := True, get_code := 200, get_size := 42,
       sd_open_ok := True, sd_free := 1000, bodies := [leaky]\<rparr>"

definition w_empty :: world where
  "w_empty =
     silent\<lparr>begin_ok := True, set_url_ok := True, get_code := 200, get_size := 0,
       sd_open_ok := True, sd_free := 1000, sd_file := Some ''old'', bodies := [''never read'']\<rparr>"

definition w_404 :: world where
  "w_404 =
     silent\<lparr>begin_ok := True, set_url_ok := True, get_code := 404, get_size := 9,
       sd_open_ok := True, sd_free := 1000, sd_file := Some ''old'', bodies := [''Not found'']\<rparr>"

definition w_404_psram :: world where
  "w_404_psram =
     silent\<lparr>acks := [1, 1, 1, 1, 1], action_status := 404, action_length := 9,
       chunks := [\<lparr>hdr_polls = [Some 9], body = ''Not found''\<rparr>],
       sd_open_ok := True, sd_free := 1000, sd_file := Some ''old''\<rparr>"

definition w_fallback :: world where
  "w_fallback = silent\<lparr>baud := 115200, acks := [1, 1], probes := [False, False]\<rparr>"

definition w_noack :: world where
  "w_noack = silent\<lparr>probes := [True, True], acks := [1, 0]\<rparr>"

definition w_locked :: world where
  "w_locked = silent\<lparr>sims := [SIM_ERROR, SIM_LOCKED, SIM_READY], regs := [REG_OK_HOME],
     netacts := [True], local_ip := ''10.0.0.7''\<rparr>"

definition w_denied :: world where
  "w_denied = silent\<lparr>sims := [SIM_READY], regs := [REG_SEARCHING, REG_DENIED, REG_OK_HOME],
     netacts := [True], local_ip := ''10.0.0.7''\<rparr>"

definition w_roaming :: world where
  "w_roaming = silent\<lparr>sims := [SIM_ERROR, SIM_READY], regs := [REG_SEARCHING, REG_OK_ROAMING],
     netacts := [True], local_ip := ''10.0.0.7''\<rparr>"

section \<open>Facts about the PSRAM download loop\<close>

lemma readBytes_facts:
  assumes "readBytes off len avail w = (r, w')"
  shows "r = int (min (nat len) (length avail))"
    and "arena_hi w' = max (arena_hi w) (off + min (nat len) (length avail))"
    and "sd_file w' = sd_file w" and "sd_free w' = sd_free w" and "chunks w' = chunks w"
    and "psramBuf w' = take off (psramBuf w) @ take (nat len) avail"
  using assms by (auto simp: readBytes_def Let_def emit_def min.commute)

lemma file_write_facts:
  assumes "file_write data w = (n, w')"
  shows "n = min (length data) (sd_free w)"
    and "arena_hi w' = arena_hi w" and "chunks w' = chunks w"
  using assms by (auto simp: file_write_def Let_def emit_def)

lemma waitResponse_facts:
  assumes "waitResponse w = (r, w')"
  shows "arena_hi w' = arena_hi w" and "sd_file w' = sd_file w" and "sd_free w' = sd_free w"
    and "chunks w' = chunks w" and "psramBuf w' = psramBuf w"
  using assms by (auto simp: waitResponse_def Let_def emit_def split: list.splits)

lemma sendAT_facts:
  "arena_hi (sendAT c w) = arena_hi w" "chunks (sendAT c w) = chunks w"
  "sd_file (sendAT c w) = sd_file w" "sd_free (sendAT c w) = sd_free w"
  "psramBuf (sendAT c w) = psramBuf w"
  by (simp_all add: sendAT_def emit_def)

lemma dl_stepE:
  assumes "dl_step cl s w = (f, s', w')"
  obtains
    (nodata) "declared_len w \<le> 0" "f = Break" "s' = s" "arena_hi w' = arena_hi w"
       "sd_file w' = sd_file w"
  | (short) "0 < declared_len w" "f = Break" "s' = s"
       "arena_hi w' \<le> max (arena_hi w) (bufferOffset s + nat (declared_len w))" "sd_file w' = sd_file w"
  | (kept) "0 < declared_len w" "f = Continue" "s' = staged s (declared_len w)"
       "\<not> flush_due cl (staged s (declared_len w))"
       "arena_hi w' = max (arena_hi w) (bufferOffset s + nat (declared_len w))"
       "sd_file w' = sd_file w"
  | (flushed) "0 < declared_len w" "f = Continue"
       "s' = (staged s (declared_len w))\<lparr>bufferOffset := 0\<rparr>"
       "flush_due cl (staged s (declared_len w))"
       "arena_hi w' = max (arena_hi w) (bufferOffset s + nat (declared_len w))"
  | (flush_failed) "0 < declared_len w" "f = Break" "s' = staged s (declared_len w)"
       "flush_due cl (staged s (declared_len w))"
       "arena_hi w' = max (arena_hi w) (bufferOffset s + nat (declared_len w))"
proof (cases "chunks w")
  case Nil
  with assms show ?thesis
    by (intro nodata) (auto simp: dl_step_def Let_def declared_len_def sendAT_facts)
next
  case (Cons c cs)
  let ?len = "await_header (hdr_polls c)"
  have dl: "declared_len w = ?len" using Cons by (simp add: declared_len_def)
  show ?thesis
  proof (cases "0 < ?len")
    case False
    with assms Cons dl show ?thesis
      by (intro nodata) (auto simp: dl_step_def Let_def sendAT_facts)
  next
    case True
    obtain r w3 where rb: "readBytes (bufferOffset s) ?len (body c)
        ((sendAT (HTTPREAD (request_size cl s)) w)\<lparr>chunks := cs\<rparr>) = (r, w3)"
      by (cases "readBytes (bufferOffset s) ?len (body c)
        ((sendAT (HTTPREAD (request_size cl s)) w)\<lparr>chunks := cs\<rparr>)") 
    note rbf = readBytes_facts [OF rb]
    show ?thesis
    proof (cases "r = ?len")
      case False
      with assms Cons True rb have "f = Break" "s' = s" "w' = w3"
        by (auto simp: dl_step_def Let_def sendAT_facts)
      moreover have "arena_hi w3 \<le> max (arena_hi w) (bufferOffset s + nat (declared_len w))"
      proof -
        have "arena_hi w3 = max (arena_hi w) (bufferOffset s + min (nat ?len) (length (body c)))"
          using rbf(2) by (simp add: sendAT_def emit_def)
        also have "\<dots> \<le> max (arena_hi w) (bufferOffset s + nat ?len)"
          by (intro max.mono) simp_all
        finally show ?thesis by (simp only: dl)
      qed
      moreover have "sd_file w3 = sd_file w" using rbf(3) by (simp add: sendAT_def emit_def)
      moreover have "0 < declared_len w" using True dl by simp
      ultimately show ?thesis
        by (intro short) simp_all
    next
      case req: True
      then have full: "min (nat ?len) (length (body c)) = nat ?len"
        using rbf(1) True by linarith
      obtain t w3t where tw: "waitResponse w3 = (t, w3t)" by (cases "waitResponse w3")
      note twf = waitResponse_facts [OF tw]
      have hi3: "arena_hi w3t = max (arena_hi w) (bufferOffset s + nat (declared_len w))"
        using rbf(2) twf(1) by (simp only: full dl sendAT_facts) (simp add: sendAT_def emit_def)
      have sd3: "sd_file w3t = sd_file w"
        using rbf(3) twf(2) by (simp add: sendAT_def emit_def)
      have pos: "0 < declared_len w" using True dl by simp
      show ?thesis
      proof (cases "flush_due cl (staged s ?len)")
        case False
        with assms Cons True rb req tw have "f = Continue" "s' = staged s ?len" "w' = w3t"
          by (auto simp: dl_step_def Let_def sendAT_facts staged_def flush_due_def)
        with hi3 sd3 pos False show ?thesis
          by (intro kept) (simp_all add: dl)
      next
        case due: True
        obtain n w4 where fw: "file_write (take (bufferOffset (staged s ?len)) (psramBuf w3t)) w3t = (n, w4)"
          by (cases "file_write (take (bufferOffset (staged s ?len)) (psramBuf w3t)) w3t")
        have hi4: "arena_hi w4 = max (arena_hi w) (bufferOffset s + nat (declared_len w))"
          using file_write_facts(2) [OF fw] hi3 by simp
        show ?thesis
        proof (cases "n = bufferOffset (staged s ?len)")
          case True
          with assms Cons \<open>0 < ?len\<close> rb req tw due fw
          have "f = Continue" "s' = (staged s ?len)\<lparr>bufferOffset := 0\<rparr>" "w' = w4"
            by (auto simp: dl_step_def Let_def sendAT_facts staged_def flush_due_def)
          with hi4 pos due show ?thesis
            by (intro flushed) (simp_all add: dl)
        next
          case False
          with assms Cons \<open>0 < ?len\<close> rb req tw due fw
          have "f = Break" "s' = staged s ?len" "w' = w4"
            by (auto simp: dl_step_def Let_def sendAT_facts staged_def flush_due_def)
          with hi4 pos due show ?thesis
            by (intro flush_failed) (simp_all add: dl)
        qed
      qed
    qed
  qed
qed

lemma arena_fits:
  assumes "off < LARGE_BUFFER_SIZE" "off mod MODEM_READ_SIZE = 0" "n \<le> MODEM_READ_SIZE"
  shows "off + n \<le> LARGE_BUFFER_SIZE"
proof -
  from assms(2) obtain k where k: "off = k * 1024"
    by (auto simp: MODEM_READ_SIZE_def elim: dvdE )
  with assms(1) have "k < 2048" by (simp add: LARGE_BUFFER_SIZE_def)
  with k assms(3) show ?thesis by (simp add: LARGE_BUFFER_SIZE_def MODEM_READ_SIZE_def)
qed

lemma dl_step_mono:
  "dl_step cl s w = (f, s', w') \<Longrightarrow> totalDownloaded s \<le> totalDownloaded s'"
  by (erule dl_stepE) (auto simp: staged_def)

lemma dl_step_le:
  "dl_step cl s w = (f, s', w') \<Longrightarrow> declared_len w \<le> request_size cl s
   \<Longrightarrow> totalDownloaded s \<le> cl \<Longrightarrow> totalDownloaded s' \<le> cl"
  by (erule dl_stepE) (auto simp: staged_def request_size_def)

lemma dl_step_exact:
  assumes "dl_step cl s w = (f, s', w')" "declared_len w = request_size cl s"
    "totalDownloaded s < cl" "at_head s w"
  shows "bufferOffset s' \<le> LARGE_BUFFER_SIZE \<and> arena_hi w' \<le> LARGE_BUFFER_SIZE
     \<and> (f = Continue \<longrightarrow> at_head s' w')"
proof -
  have n: "nat (declared_len w) \<le> MODEM_READ_SIZE"
    using assms(2) by (simp add: request_size_def)
  have fits: "bufferOffset s + nat (declared_len w) \<le> LARGE_BUFFER_SIZE"
    using assms(4) n by (intro arena_fits) (auto simp: at_head_def)
  have hi: "arena_hi w \<le> LARGE_BUFFER_SIZE" using assms(4) by (simp add: at_head_def)
  from assms(1) show ?thesis
  proof (cases rule: dl_stepE)
    case nodata
    with assms(4) show ?thesis by (simp add: at_head_def)
  next
    case short
    with assms(4) fits hi show ?thesis by (auto simp: at_head_def)
  next
    case kept
    from kept(4) have nd: "bufferOffset s + nat (declared_len w) < LARGE_BUFFER_SIZE"
      "totalDownloaded s + declared_len w \<noteq> cl"
      by (auto simp: flush_due_def staged_def)
    with assms(2,3) have "declared_len w = int MODEM_READ_SIZE"
      by (auto simp: request_size_def min_def split: if_splits)
    with kept nd assms(4) fits hi show ?thesis
      by (auto simp: at_head_def staged_def)
  next
    case flushed
    with fits hi show ?thesis by (auto simp: at_head_def staged_def)
  next
    case flush_failed
    with fits hi show ?thesis by (auto simp: at_head_def staged_def)
  qed
qed


lemma dl_induct [case_names step]:
  assumes "\<And>s w. (\<And>s' w'. totalDownloaded s < cl \<Longrightarrow> dl_step cl s w = (Continue, s', w')
              \<Longrightarrow> P s' w') \<Longrightarrow> P s w"
  shows "P s w"
proof (induction "length (chunks w)" arbitrary: s w rule: less_induct)
  case less
  show ?case
    by (rule assms) (rule less, erule dl_step_consumes)
qed

lemma dl_states_stop: "\<not> totalDownloaded s < cl \<Longrightarrow> dl_states cl s w = [(s, w)]"
  by (subst dl_states.simps) simp

lemma dl_states_break:
  "totalDownloaded s < cl \<Longrightarrow> dl_step cl s w = (Break, s', w') \<Longrightarrow>
   dl_states cl s w = [(s, w), (s', w')]"
  by (subst dl_states.simps) simp

lemma dl_states_continue:
  "totalDownloaded s < cl \<Longrightarrow> dl_step cl s w = (Continue, s', w') \<Longrightarrow>
   dl_states cl s w = (s, w) # dl_states cl s' w'"
  by (subst dl_states.simps) simp

lemma served_step:
  "totalDownloaded s < cl \<Longrightarrow> served R cl s w \<Longrightarrow> R (declared_len w) (request_size cl s)"
  by (subst (asm) served.simps) simp

lemma served_continue:
  "totalDownloaded s < cl \<Longrightarrow> served R cl s w \<Longrightarrow> dl_step cl s w = (Continue, s', w') \<Longrightarrow>
   served R cl s' w'"
  by (subst (asm) served.simps) simp

lemma dl_loop_stop: "\<not> totalDownloaded s < cl \<Longrightarrow> dl_loop cl s w = (s, w)"
  by (subst dl_loop.simps) simp

lemma dl_loop_break:
  "totalDownloaded s < cl \<Longrightarrow> dl_step cl s w = (Break, s', w') \<Longrightarrow> dl_loop cl s w = (s', w')"
  by (subst dl_loop.simps) simp

lemma dl_loop_continue:
  "totalDownloaded s < cl \<Longrightarrow> dl_step cl s w = (Continue, s', w') \<Longrightarrow>
   dl_loop cl s w = dl_loop cl s' w'"
  by (subst dl_loop.simps) simp

lemma dl_states_head: "\<exists>rest. dl_states cl s w = (s, w) # rest"
  by (subst dl_states.simps) simp

lemma dl_states_mono:
  "sorted (map (\<lambda>p. totalDownloaded (fst p)) (dl_states cl s w)) \<and>
   (\<forall>p \<in> set (dl_states cl s w). totalDownloaded s \<le> totalDownloaded (fst p))"
proof (induction s w rule: dl_induct [where cl = cl])
  case (step s w)
  show ?case
  proof (cases "totalDownloaded s < cl")
    case False
    then show ?thesis by (simp add: dl_states_stop)
  next
    case True
    obtain f s' w' where st: "dl_step cl s w = (f, s', w')" by (cases "dl_step cl s w") auto
    note m = dl_step_mono [OF st]
    show ?thesis
    proof (cases f)
      case Break
      with True st m show ?thesis by (simp add: dl_states_break)
    next
      case Continue
      have ih: "sorted (map (\<lambda>p. totalDownloaded (fst p)) (dl_states cl s' w')) \<and>
         (\<forall>p \<in> set (dl_states cl s' w'). totalDownloaded s' \<le> totalDownloaded (fst p))"
        using True st Continue by (intro step) auto
      have "dl_states cl s w = (s, w) # dl_states cl s' w'"
        using True st Continue by (simp add: dl_states_continue)
      moreover have "\<forall>p \<in> set (dl_states cl s' w'). totalDownloaded s \<le> totalDownloaded (fst p)"
        using ih m by (meson order_trans)
      ultimately show ?thesis using ih by simp
    qed
  qed
qed

lemma dl_states_le:
  "served (\<le>) cl s w \<Longrightarrow> 0 \<le> totalDownloaded s \<Longrightarrow> totalDownloaded s \<le> cl \<Longrightarrow>
   \<forall>p \<in> set (dl_states cl s w). 0 \<le> totalDownloaded (fst p) \<and> totalDownloaded (fst p) \<le> cl"
proof (induction s w rule: dl_induct [where cl = cl])
  case (step s w)
  show ?case
  proof (cases "totalDownloaded s < cl")
    case False
    with step.prems show ?thesis by (simp add: dl_states_stop)
  next
    case True
    obtain f s' w' where st: "dl_step cl s w = (f, s', w')" by (cases "dl_step cl s w") auto
    note R = served_step [OF True step.prems(1)]
    note m = dl_step_mono [OF st] and le = dl_step_le [OF st R step.prems(3)]
    show ?thesis
    proof (cases f)
      case Break
      with True st m le step.prems show ?thesis by (simp add: dl_states_break)
    next
      case Continue
      have "\<forall>p \<in> set (dl_states cl s' w'). 0 \<le> totalDownloaded (fst p) \<and> totalDownloaded (fst p) \<le> cl"
        using True st Continue m le step.prems
        by (intro step.IH) (auto intro: served_continue)
      with True st Continue step.prems show ?thesis by (simp add: dl_states_continue)
    qed
  qed
qed

lemma dl_states_arena:
  "served (=) cl s w \<Longrightarrow> at_head s w \<Longrightarrow>
   \<forall>p \<in> set (dl_states cl s w). bufferOffset (fst p) \<le> LARGE_BUFFER_SIZE
        \<and> arena_hi (snd p) \<le> LARGE_BUFFER_SIZE"
proof (induction s w rule: dl_induct [where cl = cl])
  case (step s w)
  have here: "bufferOffset s \<le> LARGE_BUFFER_SIZE \<and> arena_hi w \<le> LARGE_BUFFER_SIZE"
    using step.prems(2) by (simp add: at_head_def)
  show ?case
  proof (cases "totalDownloaded s < cl")
    case False
    with here show ?thesis by (simp add: dl_states_stop)
  next
    case True
    obtain f s' w' where st: "dl_step cl s w = (f, s', w')" by (cases "dl_step cl s w") auto
    note R = served_step [OF True step.prems(1)]
    note ex = dl_step_exact [OF st R True step.prems(2)]
    show ?thesis
    proof (cases f)
      case Break
      with True st ex here show ?thesis by (simp add: dl_states_break)
    next
      case Continue
      have "\<forall>p \<in> set (dl_states cl s' w'). bufferOffset (fst p) \<le> LARGE_BUFFER_SIZE
        \<and> arena_hi (snd p) \<le> LARGE_BUFFER_SIZE"
        using True st Continue ex step.prems
        by (intro step.IH) (auto intro: served_continue)
      with True st Continue here show ?thesis by (simp add: dl_states_continue)
    qed
  qed
qed

lemma dl_step_short:
  assumes "stream_short w" "dl_step cl s w = (f, s', w')"
  shows "f = Break \<and> s' = s"
proof (cases "chunks w")
  case Nil
  with assms(2) show ?thesis by (auto simp: dl_step_def Let_def sendAT_facts)
next
  case (Cons c cs)
  let ?len = "await_header (hdr_polls c)"
  show ?thesis
  proof (cases "0 < ?len")
    case False
    with assms(2) Cons show ?thesis by (auto simp: dl_step_def Let_def sendAT_facts)
  next
    case True
    with assms(1) Cons have sh: "int (length (body c)) < ?len" by (simp add: stream_short_def)
    obtain r w3 where rb: "readBytes (bufferOffset s) ?len (body c)
        ((sendAT (HTTPREAD (request_size cl s)) w)\<lparr>chunks := cs\<rparr>) = (r, w3)"
      by (cases "readBytes (bufferOffset s) ?len (body c)
        ((sendAT (HTTPREAD (request_size cl s)) w)\<lparr>chunks := cs\<rparr>)")
    from readBytes_facts(1) [OF rb] sh have "r \<noteq> ?len" by simp
    with assms(2) Cons True rb show ?thesis
      by (auto simp: dl_step_def Let_def sendAT_facts)
  qed
qed

lemma dl_loop_truncated:
  "(s1, w1) \<in> set (dl_states cl s w) \<Longrightarrow> totalDownloaded s1 < cl \<Longrightarrow> stream_short w1
   \<Longrightarrow> totalDownloaded (fst (dl_loop cl s w)) \<noteq> cl"
proof (induction s w rule: dl_induct [where cl = cl])
  case (step s w)
  show ?case
  proof (cases "totalDownloaded s < cl")
    case False
    with step.prems show ?thesis by (simp add: dl_states_stop)
  next
    case True
    obtain f s' w' where st: "dl_step cl s w = (f, s', w')" by (cases "dl_step cl s w") auto
    show ?thesis
    proof (cases f)
      case Break
      with True st have states: "dl_states cl s w = [(s, w), (s', w')]"
        and loop: "dl_loop cl s w = (s', w')"
        by (simp_all add: dl_states_break dl_loop_break)
      from step.prems(1) states consider "s1 = s" "w1 = w" | "s1 = s'" "w1 = w'" by auto
      then show ?thesis
      proof cases
        case 1
        with step.prems(3) st have "s' = s" using dl_step_short by blast
        with loop True show ?thesis by simp
      next
        case 2
        with loop step.prems(2) show ?thesis by simp
      qed
    next
      case Continue
      with True st have states: "dl_states cl s w = (s, w) # dl_states cl s' w'"
        and loop: "dl_loop cl s w = dl_loop cl s' w'"
        by (simp_all add: dl_states_continue dl_loop_continue)
      from step.prems(1) states consider "s1 = s" "w1 = w" | "(s1, w1) \<in> set (dl_states cl s' w')"
        by auto
      then show ?thesis
      proof cases
        case 1
        with step.prems(3) st Continue show ?thesis using dl_step_short by blast
      next
        case 2
        with step.IH [OF True _ 2 step.prems(2,3)] st Continue loop show ?thesis by simp
      qed
    qed
  qed
qed


lemmas psram_evals = silent_def open_transfer_def downloadAudioFile_psram_def waitResponse_def
  sendAT_def emit_def SD_exists_def SD_remove_def SD_open_def Let_def dl_loop.simps dl_step_def
  request_size_def readBytes_def file_write_def MODEM_READ_SIZE_def LARGE_BUFFER_SIZE_def
  declared_len_def served.simps dl_states.simps

section \<open>Facts about the scans of \<^verbatim>\<open>moh.cpp\<close>\<close>

lemma upt_0_numeral: "[0..<numeral n] = 0 # [Suc 0..<numeral n]"
  by (rule upt_conv_Cons) simp

lemma upt_Suc0_numeral:
  "[Suc 0..<numeral n] = (if Suc 0 < numeral n then Suc 0 # [2..<numeral n] else [])"
proof (cases "Suc 0 < (numeral n :: nat)")
  case True
  then have "[Suc 0..<numeral n] = Suc 0 # [Suc (Suc 0)..<numeral n]"
    by (rule upt_conv_Cons)
  with True show ?thesis by (simp only: numeral_2_eq_2 if_True)
next
  case False
  then show ?thesis by (simp only: upt_eq_Nil_conv if_False) simp
qed

lemma find_upt_Some:
  assumes "a \<le> k" "k < b" "P k" "\<And>i. a \<le> i \<Longrightarrow> i < k \<Longrightarrow> \<not> P i"
  shows "find P [a..<b] = Some k"
proof -
  have "k - a < length [a..<b]" using assms(1,2) by simp
  moreover have "P ([a..<b] ! (k - a))" "k = [a..<b] ! (k - a)" using assms(1,2,3) by simp_all
  moreover have "\<forall>j<k - a. \<not> P ([a..<b] ! j)" using assms(1,2,4) by simp
  ultimately show ?thesis unfolding find_Some_iff by blast
qed

lemma find_none: "(\<And>x. x \<in> set xs \<Longrightarrow> \<not> P x) \<Longrightarrow> find P xs = None"
  by (simp add: find_None_iff)

lemmas scan_evals = upt_0_numeral upt_Suc0_numeral scan_start_def scan_end_def scan_middle_def
  at_response_at_def http_token_at_def is_eol_def Let_def nth_append

lemmas rd_evals = rd_loop.simps rd_step_def https_body_def https_end_def emit_def file_write_def
  CHUNK_SIZE_def Let_def

lemma scan_middle_iff:
  "scan_middle buffer cleanStart cleanEnd \<longleftrightarrow>
     (\<exists>i. cleanStart + 10 \<le> i \<and> i < cleanEnd - 10 \<and> http_token_at buffer i)"
  by (auto simp: scan_middle_def list_ex_iff)

lemma tainted_length: "length tainted = 1024"
  by (simp add: tainted_def)

lemma tainted_head: "tainted ! 0 = CHR 0x0D" "tainted ! 1 = CHR ''+''" "tainted ! Suc 0 = CHR ''+''"
    "tainted \<noteq> []"
  by (simp_all add: tainted_def)

lemma tainted_fill: "2 \<le> i \<Longrightarrow> i < 500 \<Longrightarrow> tainted ! i = CHR ''a''"
  by (simp add: tainted_def nth_append nth_Cons')

lemma tainted_token: "tainted ! 500 = CHR 0x0A" "http_token_at tainted 500"
  by (simp_all add: tainted_def nth_append http_token_at_def is_eol_def)

lemma tainted_tail: "506 \<le> i \<Longrightarrow> i < 1024 \<Longrightarrow> tainted ! i = CHR ''a''"
  by (simp add: tainted_def nth_append nth_Cons')

lemma tainted_scan_start: "scan_start tainted = 501"
proof -
  have "find (at_response_at tainted) [0..<100] = Some 0"
    by (rule find_upt_Some) (simp_all add: at_response_at_def is_eol_def tainted_head)
  moreover have "find (\<lambda>j. tainted ! j = CHR 0x0A) [0..<1023] = Some 500"
  proof (rule find_upt_Some)
    fix i :: nat assume "0 \<le> i" "i < 500"
    then consider "i = 0" | "i = 1" | "2 \<le> i" by linarith
    then show "tainted ! i \<noteq> CHR 0x0A"
      using \<open>i < 500\<close> by cases (simp_all add: tainted_head tainted_fill)
  qed (simp_all add: tainted_token)
  ultimately show ?thesis by (simp add: scan_start_def tainted_length)
qed

lemma tainted_scan_end: "scan_end tainted = 1024"
proof -
  have "find (\<lambda>i. tainted ! i = CHR ''+'' \<and> i > 0 \<and> is_eol (tainted ! (i - 1)))
          (rev [975..<1024]) = None"
  proof (rule find_none)
    fix x assume "x \<in> set (rev [975..<1024])"
    then have "506 \<le> x" "x < 1024" by (auto simp only: set_rev set_upt atLeastLessThan_iff)
    then show "\<not> (tainted ! x = CHR ''+'' \<and> x > 0 \<and> is_eol (tainted ! (x - 1)))"
      by (simp add: tainted_tail)
  qed
  then show ?thesis by (simp add: scan_end_def tainted_length)
qed

lemma tainted_scan_middle: "\<not> scan_middle tainted 501 1024"
  unfolding scan_middle_iff
proof
  assume "\<exists>i. 501 + 10 \<le> i \<and> i < 1024 - 10 \<and> http_token_at tainted i"
  then obtain i where "511 \<le> i" "i < 1014" "is_eol (tainted ! i)"
    by (auto simp: http_token_at_def)
  then show False by (simp add: tainted_tail is_eol_def)
qed

lemma plus_free_passes:
  assumes "CHR ''+'' \<notin> set b"
  shows "passes_scans b"
proof -
  have nth: "\<And>i. i < length b \<Longrightarrow> b ! i \<noteq> CHR ''+''"
    using assms by (metis nth_mem)
  have "find (at_response_at b) [0 ..< min (length b - 10) 100] = None"
  proof (rule find_none)
    fix x assume "x \<in> set [0 ..< min (length b - 10) 100]"
    then have "x + 1 < length b" by auto
    then show "\<not> at_response_at b x" using nth by (simp add: at_response_at_def)
  qed
  then have s: "scan_start b = 0" by (simp add: scan_start_def)
  have "find (\<lambda>i. b ! i = CHR ''+'' \<and> i > 0 \<and> is_eol (b ! (i - 1)))
          (rev [max 1 (length b - 49) ..< length b]) = None"
  proof (rule find_none)
    fix x assume "x \<in> set (rev [max 1 (length b - 49) ..< length b])"
    then have "x < length b" by auto
    then show "\<not> (b ! x = CHR ''+'' \<and> x > 0 \<and> is_eol (b ! (x - 1)))" using nth by simp
  qed
  then have e: "scan_end b = length b" by (simp add: scan_end_def)
  have m: "\<not> scan_middle b 0 (length b)"
    unfolding scan_middle_iff
  proof
    assume "\<exists>i. 0 + 10 \<le> i \<and> i < length b - 10 \<and> http_token_at b i"
    then obtain i where "i < length b - 10" "b ! (i + 1) = CHR ''+''"
      by (auto simp: http_token_at_def)
    moreover from this have "i + 1 < length b" by simp
    ultimately show False using nth by blast
  qed
  from s e m show ?thesis by (simp add: passes_scans_def)
qed

section \<open>Facts about the downloads as a whole\<close>

lemmas moh_evals = silent_def downloadAudioFile_def rd_loop.simps rd_step_def https_body_def
  https_end_def emit_def file_write_def SD_exists_def SD_remove_def SD_open_def CHUNK_SIZE_def
  Let_def

lemma rd_loop_done: "\<not> totalRead < totalSize \<Longrightarrow> rd_loop totalSize totalRead w = (True, totalRead, w)"
  by (subst rd_loop.simps) simp

lemma rd_step_accepts:
  assumes "rd_step t w = (fl, t', w')" "fl \<noteq> ReturnFalse"
  shows "\<exists>b bs g. bodies w = b # bs \<and> bodies w' = bs \<and> b \<noteq> []
    \<and> t' = t + length g \<and> length g \<le> CHUNK_SIZE
    \<and> (\<forall>f. sd_file w = Some f \<longrightarrow> sd_file w' = Some (f @ g))
    \<and> (fl = BreakOut \<longrightarrow> length b < CHUNK_SIZE)"
proof -
  obtain b bs where bw: "bodies w = b # bs"
    using assms by (cases "bodies w") (auto simp: rd_step_def https_body_def Let_def emit_def
        https_end_def)
  let ?buf = "take CHUNK_SIZE b"
  let ?cs = "scan_start ?buf"
  let ?ce = "scan_end ?buf"
  let ?data = "take (?ce - ?cs) (drop ?cs ?buf)"
  let ?w1 = "(emit (Modem HttpsBody) w)\<lparr>bodies := bs\<rparr>"
  have hb: "https_body w = (?buf, ?w1)"
    using bw by (simp add: https_body_def Let_def emit_def)
  from assms hb have ne: "?buf \<noteq> []" and lt: "?cs < ?ce"
    and wr: "fst (file_write ?data ?w1) = ?ce - ?cs"
    and res: "t' = t + (?ce - ?cs)" "w' = snd (file_write ?data ?w1)"
    and fl: "fl = BreakOut \<Longrightarrow> length ?buf < CHUNK_SIZE"
    by (auto simp: rd_step_def Let_def split: if_splits prod.splits)
  from wr have len: "length ?data = ?ce - ?cs" "?ce - ?cs \<le> sd_free ?w1"
    by (auto simp: file_write_def Let_def min_def split: if_splits)
  have "bodies w' = bs" using res(2) by (simp add: file_write_def Let_def emit_def)
  moreover have "b \<noteq> []" using ne by auto
  moreover have "t' = t + length ?data" using res(1) len(1) by simp
  moreover have "length ?data \<le> CHUNK_SIZE" by simp
  moreover have "\<forall>f. sd_file w = Some f \<longrightarrow> sd_file w' = Some (f @ ?data)"
    using res(2) len by (simp add: file_write_def Let_def emit_def min_def)
  moreover have "fl = BreakOut \<longrightarrow> length b < CHUNK_SIZE"
    using fl by (auto simp: min_def split: if_splits)
  ultimately show ?thesis using bw by blast
qed

lemma rd_loop_success:
  "rd_loop S t w = (True, t', w') \<Longrightarrow> sd_file w = Some f \<Longrightarrow>
   \<exists>g consumed. sd_file w' = Some (f @ g) \<and> t' = t + length g
     \<and> bodies w = consumed @ bodies w' \<and> [] \<notin> set consumed
     \<and> length g \<le> CHUNK_SIZE * length consumed
     \<and> (S \<le> t' \<or> (consumed \<noteq> [] \<and> length (last consumed) < CHUNK_SIZE))"
proof (induction "length (bodies w)" arbitrary: t w f rule: less_induct)
  case less
  note prems = less.prems
  show ?case
  proof (cases "t < S")
    case False
    with prems have "t' = t" "w' = w" by (simp_all add: rd_loop_done)
    with False prems(2) show ?thesis by (intro exI [of _ "[]"]) simp
  next
    case True
    obtain fl t1 w1 where st: "rd_step t w = (fl, t1, w1)" by (cases "rd_step t w")
    from True st prems(1) have nf: "fl \<noteq> ReturnFalse"
      by (subst (asm) rd_loop.simps) auto
    from st nf obtain b bs g where b: "bodies w = b # bs" "bodies w1 = bs" "b \<noteq> []"
      "t1 = t + length g" "length g \<le> CHUNK_SIZE" "sd_file w1 = Some (f @ g)"
      "fl = BreakOut \<Longrightarrow> length b < CHUNK_SIZE"
      using rd_step_accepts [OF st nf] prems(2) by blast
    show ?thesis
    proof (cases fl)
      case ReturnFalse
      with nf show ?thesis by simp
    next
      case BreakOut
      with True st prems(1) have "t' = t1" "w' = w1"
        by (subst (asm) rd_loop.simps; simp)+
      with b BreakOut show ?thesis
        by (intro exI [of _ g] exI [of _ "[b]"]) simp
    next
      case NextChunk
      with True st prems(1) have rec: "rd_loop S t1 w1 = (True, t', w')"
        by (subst (asm) rd_loop.simps) simp
      have "length (bodies w1) < length (bodies w)" using b(1,2) by simp
      from less.hyps [OF this rec b(6)]
      obtain g' consumed where ih: "sd_file w' = Some ((f @ g) @ g')" "t' = t1 + length g'"
        "bodies w1 = consumed @ bodies w'" "length g' \<le> CHUNK_SIZE * length consumed"
        "S \<le> t' \<or> (consumed \<noteq> [] \<and> length (last consumed) < CHUNK_SIZE)"
        "[] \<notin> set consumed"
        by blast
      show ?thesis
      proof (intro exI [of _ "g @ g'"] exI [of _ "b # consumed"] conjI)
        show "sd_file w' = Some (f @ g @ g')" using ih(1) by simp
        show "t' = t + length (g @ g')" using ih(2) b(4) by simp
        show "bodies w = (b # consumed) @ bodies w'" using b(1,2) ih(3) by simp
        show "length (g @ g') \<le> CHUNK_SIZE * length (b # consumed)" using b(5) ih(4) by simp
        show "S \<le> t' \<or> (b # consumed \<noteq> [] \<and> length (last (b # consumed)) < CHUNK_SIZE)"
          using ih(5) by auto
        show "[] \<notin> set (b # consumed)" using ih(6) b(3) by auto
      qed
    qed
  qed
qed

lemma moh_enters_loop:
  assumes "begin_ok w0" "set_url_ok w0" "get_code w0 = 200" "sd_open_ok w0"
  shows "\<exists>w6. sd_file w6 = Some [] \<and> bodies w6 = bodies w0 \<and> sd_free w6 = sd_free w0
    \<and> downloadAudioFile w0 =
        (if fst (rd_loop (get_size w0) 0 w6)
         then (True, https_end (snd (snd (rd_loop (get_size w0) 0 w6))))
         else (False, snd (snd (rd_loop (get_size w0) 0 w6))))"
proof -
  let ?w4 = "emit (Modem HttpsGet) (emit (Modem HttpsAddHeader) (emit (Modem HttpsAddHeader)
                 (emit (Modem HttpsAddHeader) (emit (Modem HttpsSetUserAgent)
                 (emit (Modem HttpsSetUrl) (emit (Modem HttpsBegin) w0))))))"
  let ?w6 = "snd (SD_open (if SD_exists ?w4 then SD_remove ?w4 else ?w4))"
  have "sd_file ?w6 = Some []" "bodies ?w6 = bodies w0" "sd_free ?w6 = sd_free w0"
    using assms(4) by (simp_all add: SD_open_def SD_remove_def SD_exists_def emit_def)
  moreover have "downloadAudioFile w0 =
        (if fst (rd_loop (get_size w0) 0 ?w6)
         then (True, https_end (snd (snd (rd_loop (get_size w0) 0 ?w6))))
         else (False, snd (snd (rd_loop (get_size w0) 0 ?w6))))"
    using assms
    by (cases "sd_file w0")
      (simp_all add: downloadAudioFile_def Let_def emit_def SD_open_def SD_exists_def
        SD_remove_def split: prod.splits)
  ultimately show ?thesis by blast
qed

lemma moh_success:
  assumes "fst (downloadAudioFile w0)"
  shows "begin_ok w0 \<and> set_url_ok w0 \<and> get_code w0 = 200 \<and> sd_open_ok w0 \<and>
    (\<exists>f consumed. sd_file (snd (downloadAudioFile w0)) = Some f
       \<and> bodies w0 = consumed @ bodies (snd (downloadAudioFile w0))
       \<and> [] \<notin> set consumed
       \<and> length f \<le> CHUNK_SIZE * length consumed
       \<and> (get_size w0 \<le> length f
          \<or> (consumed \<noteq> [] \<and> length (last consumed) < CHUNK_SIZE)))"
proof -
  from assms have op: "begin_ok w0" "set_url_ok w0" "get_code w0 = 200" "sd_open_ok w0"
    by (auto simp: downloadAudioFile_def Let_def emit_def SD_open_def SD_exists_def SD_remove_def
        split: if_splits prod.splits)
  from moh_enters_loop [OF op] obtain w6 where w6: "sd_file w6 = Some []" "bodies w6 = bodies w0"
    and dl: "downloadAudioFile w0 =
        (if fst (rd_loop (get_size w0) 0 w6)
         then (True, https_end (snd (snd (rd_loop (get_size w0) 0 w6))))
         else (False, snd (snd (rd_loop (get_size w0) 0 w6))))"
    by blast
  obtain ok t' w7 where lp: "rd_loop (get_size w0) 0 w6 = (ok, t', w7)"
    by (cases "rd_loop (get_size w0) 0 w6")
  from assms dl lp have ok: "ok" by (simp split: if_splits)
  from lp ok have lp': "rd_loop (get_size w0) 0 w6 = (True, t', w7)" by simp
  from rd_loop_success [OF lp' w6(1)]
  obtain g consumed where g: "sd_file w7 = Some g" "t' = length g"
    "bodies w6 = consumed @ bodies w7" "length g \<le> CHUNK_SIZE * length consumed"
    "get_size w0 \<le> t' \<or> (consumed \<noteq> [] \<and> length (last consumed) < CHUNK_SIZE)"
    "[] \<notin> set consumed"
    by auto
  have fin: "snd (downloadAudioFile w0) = https_end w7" using dl lp' by simp
  have "sd_file (https_end w7) = Some g" "bodies (https_end w7) = bodies w7"
    using g(1) by (simp_all add: https_end_def emit_def)
  with g w6(2) fin op show ?thesis by auto
qed

lemma moh_boundary:
  assumes "bodies w0 = pre @ rest" "\<forall>c \<in> set pre. CHUNK_SIZE \<le> length c"
    "rest = [] \<or> hd rest = []" "CHUNK_SIZE * length pre < get_size w0"
  shows "\<not> fst (downloadAudioFile w0)"
proof
  assume "fst (downloadAudioFile w0)"
  from moh_success [OF this] obtain f consumed where
    c0: "sd_file (snd (downloadAudioFile w0)) = Some f" and
    c: "bodies w0 = consumed @ bodies (snd (downloadAudioFile w0))"
      "[] \<notin> set consumed"
      "length f \<le> CHUNK_SIZE * length consumed"
      "get_size w0 \<le> length f \<or> (consumed \<noteq> [] \<and> length (last consumed) < CHUNK_SIZE)"
    by blast
  have le: "length consumed \<le> length pre"
  proof (rule ccontr)
    assume "\<not> length consumed \<le> length pre"
    then have lt: "length pre < length consumed" by simp
    then have "consumed ! length pre = (pre @ rest) ! length pre"
      using c(1) assms(1) by (metis nth_append)
    moreover have "length pre < length (pre @ rest)"
      using lt c(1) assms(1) by (metis length_append trans_less_add1)
    then have ne: "rest \<noteq> []" by auto
    ultimately have "consumed ! length pre = hd rest" by (simp add: hd_conv_nth nth_append)
    with ne assms(3) have "consumed ! length pre = []" by simp
    with lt c(2) show False by (metis nth_mem)
  qed
  have "consumed = take (length consumed) (pre @ rest)"
    using c(1) assms(1) by (metis append_eq_conv_conj)
  with le have pre: "consumed = take (length consumed) pre" by simp
  have sub: "set consumed \<subseteq> set pre" by (subst pre) (rule set_take_subset)
  from le have "CHUNK_SIZE * length consumed \<le> CHUNK_SIZE * length pre"
    by (rule mult_le_mono2)
  with c(3) assms(4) have "\<not> get_size w0 \<le> length f" by linarith
  with c(4) have "consumed \<noteq> []" "length (last consumed) < CHUNK_SIZE" by auto
  moreover from this(1) sub have "last consumed \<in> set pre" by auto
  ultimately show False using assms(2) by fastforce
qed

lemma rd_step_clean:
  assumes "bodies w = b # bs" "b \<noteq> []" "length b \<le> CHUNK_SIZE" "passes_scans b"
    "length b \<le> sd_free w" "sd_file w = Some f"
  shows "\<exists>w'. rd_step t w = (if length b < CHUNK_SIZE then BreakOut else NextChunk, t + length b, w')
    \<and> bodies w' = bs \<and> sd_file w' = Some (f @ b) \<and> sd_free w' = sd_free w - length b"
  using assms
  by (simp add: rd_step_def https_body_def Let_def file_write_def emit_def min_absorb1
      passes_scans_def)

lemma rd_loop_clean:
  assumes "\<forall>c \<in> set pre. length c = CHUNK_SIZE \<and> passes_scans c"
    "bodies w = pre @ b # bs" "b \<noteq> []" "length b \<le> CHUNK_SIZE" "passes_scans b"
    "t + length (concat pre) < S"
    "length b < CHUNK_SIZE \<or> S \<le> t + length (concat pre) + length b"
    "length (concat pre) + length b \<le> sd_free w"
    "sd_file w = Some f"
  shows "\<exists>t' w'. rd_loop S t w = (True, t', w') \<and> sd_file w' = Some (f @ concat pre @ b)
    \<and> bodies w' = bs"
  using assms
proof (induction pre arbitrary: t w f)
  case Nil
  then have lt: "t < S" by simp
  from Nil rd_step_clean [of w b bs f t]
  obtain w' where w': "rd_step t w = (if length b < CHUNK_SIZE then BreakOut else NextChunk,
      t + length b, w')" "bodies w' = bs" "sd_file w' = Some (f @ b)"
    by auto
  show ?case
  proof (cases "length b < CHUNK_SIZE")
    case True
    with lt w' show ?thesis by (subst rd_loop.simps) simp
  next
    case False
    with Nil.prems(7) have "\<not> t + length b < S" by simp
    then have "rd_loop S (t + length b) w' = (True, t + length b, w')" by (rule rd_loop_done)
    with False lt w' show ?thesis by (subst rd_loop.simps) simp
  qed
next
  case (Cons c pre)
  then have c: "length c = CHUNK_SIZE" "passes_scans c" "c \<noteq> []"
    by (auto simp: CHUNK_SIZE_def)
  from Cons.prems have "t < S" by simp
  moreover from Cons.prems c rd_step_clean [of w c "pre @ b # bs" f t]
  obtain w1 where w1: "rd_step t w = (NextChunk, t + length c, w1)" "bodies w1 = pre @ b # bs"
    "sd_file w1 = Some (f @ c)" "sd_free w1 = sd_free w - length c"
    by auto
  ultimately have unf: "rd_loop S t w = rd_loop S (t + length c) w1"
    by (subst rd_loop.simps) simp
  have "\<exists>t' w'. rd_loop S (t + length c) w1 = (True, t', w')
      \<and> sd_file w' = Some ((f @ c) @ concat pre @ b) \<and> bodies w' = bs"
  proof (rule Cons.IH)
    show "\<forall>c \<in> set pre. length c = CHUNK_SIZE \<and> passes_scans c" using Cons.prems(1) by simp
    show "t + length c + length (concat pre) < S" using Cons.prems(6) by simp
    show "length b < CHUNK_SIZE \<or> S \<le> t + length c + length (concat pre) + length b"
      using Cons.prems(7) by (simp add: add.assoc)
    show "length (concat pre) + length b \<le> sd_free w1" using Cons.prems(8) w1(4) by simp
  qed (use Cons.prems w1 in simp_all)
  with unf show ?case by simp
qed

lemma moh_clean_stream:
  assumes "begin_ok w0" "set_url_ok w0" "get_code w0 = 200" "sd_open_ok w0"
    "bodies w0 = pre @ b # bs" "\<forall>c \<in> set pre. length c = CHUNK_SIZE \<and> passes_scans c"
    "b \<noteq> []" "length b \<le> CHUNK_SIZE" "passes_scans b"
    "length (concat pre) < get_size w0"
    "length b < CHUNK_SIZE \<or> get_size w0 \<le> length (concat pre) + length b"
    "length (concat pre) + length b \<le> sd_free w0"
  shows "fst (downloadAudioFile w0)
    \<and> sd_file (snd (downloadAudioFile w0)) = Some (concat pre @ b)"
proof -
  from moh_enters_loop [OF assms(1-4)] obtain w6 where w6: "sd_file w6 = Some []"
    "bodies w6 = bodies w0" "sd_free w6 = sd_free w0"
    and dl: "downloadAudioFile w0 =
        (if fst (rd_loop (get_size w0) 0 w6)
         then (True, https_end (snd (snd (rd_loop (get_size w0) 0 w6))))
         else (False, snd (snd (rd_loop (get_size w0) 0 w6))))"
    by blast
  have "\<exists>t' w'. rd_loop (get_size w0) 0 w6 = (True, t', w')
      \<and> sd_file w' = Some ([] @ concat pre @ b) \<and> bodies w' = bs"
  proof (rule rd_loop_clean)
    show "bodies w6 = pre @ b # bs" using w6(2) assms(5) by simp
    show "0 + length (concat pre) < get_size w0" using assms(10) by simp
    show "length b < CHUNK_SIZE \<or> get_size w0 \<le> 0 + length (concat pre) + length b"
      using assms(11) by simp
    show "length (concat pre) + length b \<le> sd_free w6" using assms(12) w6(3) by simp
  qed (use assms w6 in simp_all)
  then obtain t' w' where "rd_loop (get_size w0) 0 w6 = (True, t', w')"
    "sd_file w' = Some (concat pre @ b)"
    by auto
  with dl show ?thesis by (simp add: https_end_def emit_def)
qed

lemma new_events_append [simp]: "new_events w (v\<lparr>trace := trace w @ es\<rparr>) = es"
  by (simp add: new_events_def)

lemma psram_rejected:
  assumes "action_status w \<noteq> 200 \<or> action_length w \<le> 0"
  shows "\<not> fst (downloadAudioFile_psram w)
     \<and> chunks (snd (downloadAudioFile_psram w)) = chunks w
     \<and> sd_file (snd (downloadAudioFile_psram w)) = sd_file w
     \<and> \<not> list_ex payload_read (new_events w (snd (downloadAudioFile_psram w)))
     \<and> length (filter ((=) (SendAT HTTPACTION)) (new_events w (snd (downloadAudioFile_psram w)))) \<le> 1"
  using assms
  by (auto simp: downloadAudioFile_psram_def open_transfer_def waitResponse_def sendAT_def
      emit_def Let_def new_events_def split: list.splits)

lemma moh_rejected:
  assumes "get_code w \<noteq> 200"
  shows "\<not> fst (downloadAudioFile w)
     \<and> bodies (snd (downloadAudioFile w)) = bodies w
     \<and> sd_file (snd (downloadAudioFile w)) = sd_file w
     \<and> \<not> list_ex payload_read (new_events w (snd (downloadAudioFile w)))
     \<and> length (filter ((=) (Modem HttpsGet)) (new_events w (snd (downloadAudioFile w)))) \<le> 1"
  using assms
  by (auto simp: downloadAudioFile_def https_end_def emit_def Let_def new_events_def)

lemma moh_empty:
  assumes "get_size w = 0"
  shows "bodies (snd (downloadAudioFile w)) = bodies w
     \<and> \<not> list_ex payload_read (new_events w (snd (downloadAudioFile w)))"
  using assms
  by (auto simp: downloadAudioFile_def https_end_def emit_def Let_def new_events_def
      SD_exists_def SD_remove_def SD_open_def rd_loop_done)

lemma moh_unopened:
  assumes "\<not> begin_ok w \<or> \<not> set_url_ok w \<or> get_code w \<noteq> 200"
  shows "\<not> fst (downloadAudioFile w) \<and> sd_file (snd (downloadAudioFile w)) = sd_file w"
  using assms
  by (auto simp: downloadAudioFile_def https_end_def emit_def Let_def)

lemma psram_unopened:
  assumes "\<not> (\<exists>a rest. acks w = 1 # 1 # a # 1 # 1 # rest)
           \<or> action_status w \<noteq> 200 \<or> action_length w \<le> 0"
  shows "\<not> fst (downloadAudioFile_psram w) \<and> sd_file (snd (downloadAudioFile_psram w)) = sd_file w"
  using assms
  by (auto simp: downloadAudioFile_psram_def open_transfer_def waitResponse_def sendAT_def
      emit_def Let_def split: list.splits)

section \<open>Facts about the link and the session\<close>

lemma trace_shutdownModem: "trace (shutdownModem w) = trace w @ shutdown_pulse"
  by (simp add: shutdownModem_def shutdown_pulse_def digitalWrite_def delay_def emit_def Let_def
      MODEM_POWEROFF_PULSE_WIDTH_MS_def)

lemma ends_down:
  "trace v = trace w @ shutdown_pulse @ post \<Longrightarrow> \<not> list_ex touches_modem post \<Longrightarrow>
   \<exists>pre post. trace v = pre @ shutdown_pulse @ post \<and> \<not> list_ex touches_modem post"
  by blast

lemma testAT_cases:
  obtains (silent) "probes w = []" "testAT w = (False, emit (Modem TestAT) w)"
  | (answer) p ps where "probes w = p # ps"
      "testAT w = (p, (emit (Modem TestAT) w)\<lparr>probes := ps\<rparr>)"
  by (cases "probes w") (auto simp: testAT_def Let_def emit_def)

lemma wait_at_result:
  "(\<And>v. probes (pause v) = probes v) \<Longrightarrow> retry \<le> lim + 1 \<Longrightarrow>
    fst (wait_at lim pause retry w) = list_ex id (take (lim + 2 - retry) (probes w))"
proof (induction lim pause retry w rule: wait_at.induct)
  case (1 lim pause retry w)
  note assms = "1.prems"(1) and le = "1.prems"(2)
  show ?case
  proof (cases w rule: testAT_cases)
    case silent
    show ?thesis
    proof (cases "retry > lim")
      case True
      with silent show ?thesis by (subst wait_at.simps) simp
    next
      case False
      have "fst (wait_at lim pause (Suc retry) (pause (emit (Modem TestAT) w))) =
          list_ex id (take (lim + 2 - Suc retry) (probes (pause (emit (Modem TestAT) w))))"
        using False silent by (intro "1.IH" [OF silent(2) [symmetric]]) (simp_all add: assms)
      with False silent show ?thesis
        by (subst wait_at.simps) (simp add: emit_def assms)
    qed
  next
    case (answer p ps)
    show ?thesis
    proof (cases p)
      case True
      have "lim + 2 - retry = Suc (lim + 1 - retry)" using le by simp
      with True answer show ?thesis by (subst wait_at.simps) simp
    next
      case notp: False
      show ?thesis
      proof (cases "retry > lim")
        case True
        with le have "lim + 2 - retry = Suc 0" by simp
        with True notp answer show ?thesis by (subst wait_at.simps) simp
      next
        case False
        have "fst (wait_at lim pause (Suc retry) (pause ((emit (Modem TestAT) w)\<lparr>probes := ps\<rparr>))) =
            list_ex id (take (lim + 2 - Suc retry)
              (probes (pause ((emit (Modem TestAT) w)\<lparr>probes := ps\<rparr>))))"
          using False notp answer by (intro "1.IH" [OF answer(2) [symmetric]]) (simp_all add: assms)
        moreover have "lim + 2 - retry = Suc (lim + 2 - Suc retry)" using False by simp
        ultimately show ?thesis using False notp answer
          by (subst wait_at.simps) (simp add: assms)
      qed
    qed
  qed
qed

lemma wait_at_baud:
  "(\<And>v. baud (pause v) = baud v) \<Longrightarrow> baud (snd (wait_at lim pause retry w)) = baud w"
proof (induction lim pause retry w rule: wait_at.induct)
  case (1 lim pause retry w)
  note assms = "1.prems"(1)
  show ?case
  proof (cases w rule: testAT_cases)
    case silent
    show ?thesis
    proof (cases "retry > lim")
      case True
      with silent show ?thesis by (subst wait_at.simps) (simp add: emit_def)
    next
      case False
      have "baud (snd (wait_at lim pause (Suc retry) (pause (emit (Modem TestAT) w)))) =
          baud (pause (emit (Modem TestAT) w))"
        using False silent by (intro "1.IH" [OF silent(2) [symmetric]]) (simp_all add: assms)
      with False silent show ?thesis
        by (subst wait_at.simps) (simp add: emit_def assms)
    qed
  next
    case (answer p ps)
    show ?thesis
    proof (cases "p \<or> retry > lim")
      case True
      with answer show ?thesis by (subst wait_at.simps) (auto simp: emit_def split: bool.splits)
    next
      case False
      have "baud (snd (wait_at lim pause (Suc retry) (pause ((emit (Modem TestAT) w)\<lparr>probes := ps\<rparr>)))) =
            baud (pause ((emit (Modem TestAT) w)\<lparr>probes := ps\<rparr>))"
        using False answer by (intro "1.IH" [OF answer(2) [symmetric]]) (simp_all add: assms)
      with False answer show ?thesis
        by (subst wait_at.simps) (simp add: emit_def assms)
    qed
  qed
qed

lemma waitResponse_cases:
  obtains (timeout) "acks w = []" "waitResponse w = (0, emit (Modem WaitResponse) w)"
  | (reply) a as where "acks w = a # as"
      "waitResponse w = (a, (emit (Modem WaitResponse) w)\<lparr>acks := as\<rparr>)"
  by (cases "acks w") (auto simp: waitResponse_def Let_def emit_def)

lemma ipr_acked:
  "fst (waitResponse (sendAT c w)) = 1 \<longleftrightarrow> take 1 (acks w) = [1]"
  by (cases "acks w") (auto simp: waitResponse_def sendAT_def emit_def Let_def)

lemma raise_speed_result: "fst (raise_speed w) \<longleftrightarrow> take 1 (acks w) = [1]"
  unfolding ipr_acked [of "IPR 921600" w, symmetric]
  by (simp add: raise_speed_def Let_def split: prod.splits)

lemma raise_speed_psram_result: "fst (raise_speed_psram w) \<longleftrightarrow> take 1 (acks w) = [1]"
  unfolding ipr_acked [of "IPR 921600" w, symmetric]
  by (simp add: raise_speed_psram_def Let_def split: prod.splits)

lemma raise_speed_baud:
  assumes "take 1 (acks w) = [1]"
  shows "baud (snd (raise_speed w)) = (if list_ex id (take 7 (probes w)) then 921600 else 115200)"
proof -
  from assms obtain as where as: "acks w = 1 # as" by (cases "acks w") auto
  define w1 where "w1 = (emit (Modem WaitResponse) (sendAT (IPR 921600) w))\<lparr>acks := as\<rparr>"
  define w2 where "w2 = delay 100 (updateBaudRate 921600 (delay 100 w1))"
  have wr: "waitResponse (sendAT (IPR 921600) w) = (1, w1)"
    using as by (simp add: waitResponse_def sendAT_def emit_def Let_def w1_def)
  have p2: "probes w2 = probes w" and b2: "baud w2 = 921600"
    by (simp_all add: w2_def w1_def delay_def updateBaudRate_def emit_def sendAT_def)
  obtain verified w3 where wa: "wait_at 5 id 0 w2 = (verified, w3)" by (cases "wait_at 5 id 0 w2")
  have v: "verified = list_ex id (take 7 (probes w))"
    using wait_at_result [of id 0 5 w2] wa p2 by simp
  have b3: "baud w3 = 921600"
    using wait_at_baud [of id 5 0 w2] wa b2 by simp
  show ?thesis
    using wr wa v b3
    by (cases "waitResponse (sendAT (IPR 115200) (updateBaudRate 115200 w3))")
       (auto simp: raise_speed_def Let_def w2_def waitResponse_def sendAT_def emit_def
          updateBaudRate_def split: list.splits)
qed

lemma probe_alive_numeral:
  "probe_alive (numeral n) w =
     (case testAT w of
        (True, w') \<Rightarrow> (True, w')
      | (False, w') \<Rightarrow> probe_alive (pred_numeral n) (delay 500 w'))"
  by (simp add: numeral_eq_Suc)

lemmas link_evals = silent_def powerOnModem_def bring_up_def raise_speed_def probe_alive_numeral
  wait_at.simps testAT_def waitResponse_def sendAT_def emit_def delay_def digitalWrite_def
  updateBaudRate_def hard_reset_def shutdownModem_def checkForNewAudio_def Let_def
  MODEM_POWERON_PULSE_WIDTH_MS_def MODEM_POWEROFF_PULSE_WIDTH_MS_def

lemma getSimStatus_next:
  "sims w = x # xs \<Longrightarrow> getSimStatus w = (x, (emit (Modem GetSimStatus) w)\<lparr>sims := xs\<rparr>)"
  by (simp add: getSimStatus_def Let_def emit_def)

lemma getRegistrationStatus_next:
  "regs w = x # xs \<Longrightarrow>
   getRegistrationStatus w = (x, (emit (Modem GetRegistrationStatus) w)\<lparr>regs := xs\<rparr>)"
  by (simp add: getRegistrationStatus_def Let_def emit_def)

lemma sim_loop_locked:
  "sims w = pre @ SIM_LOCKED # rest \<Longrightarrow> length pre < t \<Longrightarrow> SIM_READY \<notin> set pre \<Longrightarrow>
   SIM_LOCKED \<notin> set pre \<Longrightarrow> sim \<noteq> SIM_READY \<Longrightarrow>
   \<exists>w'. sim_loop t sim w = (None, w') \<and> sims w' = rest \<and> regs w' = regs w
        \<and> netacts w' = netacts w"
proof (induction pre arbitrary: t sim w)
  case Nil
  then obtain t' where t: "t = Suc t'" by (cases t) auto
  from Nil show ?case
    by (simp add: t getSimStatus_next emit_def)
next
  case (Cons p pre)
  then obtain t' where t: "t = Suc t'" by (cases t) auto
  let ?w1 = "delay 1000 ((emit (Modem GetSimStatus) w)\<lparr>sims := pre @ SIM_LOCKED # rest\<rparr>)"
  have "\<exists>w'. sim_loop t' p ?w1 = (None, w') \<and> sims w' = rest \<and> regs w' = regs ?w1
        \<and> netacts w' = netacts ?w1"
    using Cons.prems t by (intro Cons.IH) (auto simp: delay_def emit_def)
  with Cons.prems show ?case
    by (auto simp: t getSimStatus_next delay_def emit_def)
qed

lemma sim_loop_ready:
  "sims w = pre @ SIM_READY # rest \<Longrightarrow> length pre < t \<Longrightarrow> SIM_READY \<notin> set pre \<Longrightarrow>
   SIM_LOCKED \<notin> set pre \<Longrightarrow> sim \<noteq> SIM_READY \<Longrightarrow>
   \<exists>w'. sim_loop t sim w = (Some SIM_READY, w') \<and> sims w' = rest \<and> regs w' = regs w
        \<and> netacts w' = netacts w \<and> acks w' = acks w \<and> local_ip w' = local_ip w"
proof (induction pre arbitrary: t sim w)
  case Nil
  then obtain t' where t: "t = Suc t'" by (cases t) auto
  from Nil show ?case
    by (cases t') (simp_all add: t getSimStatus_next emit_def)
next
  case (Cons p pre)
  then obtain t' where t: "t = Suc t'" by (cases t) auto
  let ?w1 = "delay 1000 ((emit (Modem GetSimStatus) w)\<lparr>sims := pre @ SIM_READY # rest\<rparr>)"
  have "\<exists>w'. sim_loop t' p ?w1 = (Some SIM_READY, w') \<and> sims w' = rest \<and> regs w' = regs ?w1
        \<and> netacts w' = netacts ?w1 \<and> acks w' = acks ?w1 \<and> local_ip w' = local_ip ?w1"
    using Cons.prems t by (intro Cons.IH) (auto simp: delay_def emit_def)
  with Cons.prems show ?case
    by (auto simp: t getSimStatus_next delay_def emit_def)
qed

lemma reg_loop_denied:
  "regs w = pre @ REG_DENIED # rest \<Longrightarrow> length pre < t \<Longrightarrow> REG_OK_HOME \<notin> set pre \<Longrightarrow>
   REG_OK_ROAMING \<notin> set pre \<Longrightarrow> REG_DENIED \<notin> set pre \<Longrightarrow>
   \<exists>w'. reg_loop t status w = (None, w') \<and> regs w' = rest \<and> netacts w' = netacts w"
proof (induction pre arbitrary: t status w)
  case Nil
  then obtain t' where t: "t = Suc t'" by (cases t) auto
  from Nil show ?case
    by (simp add: t getRegistrationStatus_next emit_def)
next
  case (Cons p pre)
  then obtain t' where t: "t = Suc t'" by (cases t) auto
  let ?w1 = "delay 1000 ((emit (Modem GetRegistrationStatus) w)\<lparr>regs := pre @ REG_DENIED # rest\<rparr>)"
  have "\<exists>w'. reg_loop t' p ?w1 = (None, w') \<and> regs w' = rest \<and> netacts w' = netacts ?w1"
    using Cons.prems t by (intro Cons.IH) (auto simp: delay_def emit_def)
  with Cons.prems show ?case
    by (auto simp: t getRegistrationStatus_next delay_def emit_def)
qed

lemma reg_loop_ok:
  "regs w = pre @ st # rest \<Longrightarrow> st = REG_OK_HOME \<or> st = REG_OK_ROAMING \<Longrightarrow> length pre < t \<Longrightarrow>
   REG_OK_HOME \<notin> set pre \<Longrightarrow> REG_OK_ROAMING \<notin> set pre \<Longrightarrow> REG_DENIED \<notin> set pre \<Longrightarrow>
   \<exists>w'. reg_loop t status w = (Some st, w') \<and> regs w' = rest \<and> netacts w' = netacts w
        \<and> acks w' = acks w \<and> local_ip w' = local_ip w"
proof (induction pre arbitrary: t status w)
  case Nil
  then obtain t' where t: "t = Suc t'" by (cases t) auto
  from Nil show ?case
    by (auto simp: t getRegistrationStatus_next emit_def)
next
  case (Cons p pre)
  then obtain t' where t: "t = Suc t'" by (cases t) auto
  let ?w1 = "delay 1000 ((emit (Modem GetRegistrationStatus) w)\<lparr>regs := pre @ st # rest\<rparr>)"
  have "\<exists>w'. reg_loop t' p ?w1 = (Some st, w') \<and> regs w' = rest \<and> netacts w' = netacts ?w1
        \<and> acks w' = acks ?w1 \<and> local_ip w' = local_ip ?w1"
    using Cons.prems t by (intro Cons.IH) (auto simp: delay_def emit_def)
  with Cons.prems show ?case
    by (auto simp: t getRegistrationStatus_next delay_def emit_def)
qed

lemma connect_locked:
  assumes "sims w = pre @ SIM_LOCKED # rest" "length pre < 30" "SIM_READY \<notin> set pre"
    "SIM_LOCKED \<notin> set pre"
  shows "\<not> fst (connectNetwork w) \<and> sims (snd (connectNetwork w)) = rest
     \<and> regs (snd (connectNetwork w)) = regs w \<and> netacts (snd (connectNetwork w)) = netacts w"
proof -
  from sim_loop_locked [OF assms, of SIM_ERROR]
  obtain w' where "sim_loop 30 SIM_ERROR w = (None, w')" "sims w' = rest" "regs w' = regs w"
    "netacts w' = netacts w" by auto
  then show ?thesis by (simp add: connectNetwork_def)
qed

lemma connect_denied:
  assumes "sims w = spre @ SIM_READY # srest" "length spre < 30" "SIM_READY \<notin> set spre"
    "SIM_LOCKED \<notin> set spre"
    "regs w = rpre @ REG_DENIED # rrest" "length rpre < 60" "REG_OK_HOME \<notin> set rpre"
    "REG_OK_ROAMING \<notin> set rpre" "REG_DENIED \<notin> set rpre"
  shows "\<not> fst (connectNetwork w) \<and> regs (snd (connectNetwork w)) = rrest
     \<and> netacts (snd (connectNetwork w)) = netacts w"
proof -
  from sim_loop_ready [OF assms(1-4), of SIM_ERROR]
  obtain w1 where 1: "sim_loop 30 SIM_ERROR w = (Some SIM_READY, w1)" "regs w1 = regs w"
    "netacts w1 = netacts w" by auto
  from reg_loop_denied [OF _ assms(6-9), of w1 rrest REG_NO_RESULT] 1 assms(5)
  obtain w2 where "reg_loop 60 REG_NO_RESULT w1 = (None, w2)" "regs w2 = rrest"
    "netacts w2 = netacts w1" by auto
  with 1 show ?thesis by (simp add: connectNetwork_def)
qed

lemma connect_registered:
  assumes "sims w = spre @ SIM_READY # srest" "length spre < 30" "SIM_READY \<notin> set spre"
    "SIM_LOCKED \<notin> set spre"
    "regs w = rpre @ st # rrest" "st = REG_OK_HOME \<or> st = REG_OK_ROAMING" "length rpre < 60"
    "REG_OK_HOME \<notin> set rpre" "REG_OK_ROAMING \<notin> set rpre" "REG_DENIED \<notin> set rpre"
    "netacts w = True # nrest" "local_ip w \<noteq> []" "local_ip w \<noteq> ''0.0.0.0''"
  shows "fst (connectNetwork w) \<and> regs (snd (connectNetwork w)) = rrest"
proof -
  from sim_loop_ready [OF assms(1-4), of SIM_ERROR]
  obtain w1 where 1: "sim_loop 30 SIM_ERROR w = (Some SIM_READY, w1)" "regs w1 = regs w"
    "netacts w1 = netacts w" "local_ip w1 = local_ip w" by auto
  from reg_loop_ok [OF _ assms(6-10), of w1 rrest REG_NO_RESULT] 1 assms(5)
  obtain w2 where 2: "reg_loop 60 REG_NO_RESULT w1 = (Some st, w2)" "regs w2 = rrest"
    "netacts w2 = netacts w1" "local_ip w2 = local_ip w1" by auto
  obtain r w3 where 3: "waitResponse (sendAT NETCLOSE w2) = (r, w3)"
    by (cases "waitResponse (sendAT NETCLOSE w2)")
  then have f3: "netacts w3 = netacts w2" "local_ip w3 = local_ip w2" "regs w3 = regs w2"
    by (auto simp: waitResponse_def sendAT_def emit_def Let_def split: list.splits)
  have 4: "net_loop 3 w3 = (True, (emit (Modem SetNetworkActive) w3)\<lparr>netacts := nrest\<rparr>)"
    using f3 2 1 assms(11) by (simp add: numeral_3_eq_3 setNetworkActive_def Let_def emit_def)
  show ?thesis
    using 1 2 3 4 f3 assms(6,12,13)
    by (auto simp: connectNetwork_def Let_def emit_def)
qed

section \<open>The claims\<close>

text \<open>
  C1 (amended). In the PSRAM variant the download reports success if and only if the
  transfer was opened (header accepted, file created) and the loop ends with
  \<open>totalDownloaded = contentLength\<close>; and if, while bytes are still missing, a round
  comes up short (no chunk header, or fewer bytes than the header declares), the download
  reports failure, whatever was staged or flushed before.

  In \<^verbatim>\<open>moh.cpp\<close> the download reports success only if the transfer was opened
  (\<^verbatim>\<open>https_begin\<close> and \<^verbatim>\<open>https_set_url\<close> succeed, the status is 200, the file is
  created), every chunk read was non-empty and, at the end, the file holds at least
  \<open>totalSize\<close> bytes or the last chunk read was shorter than \<open>CHUNK_SIZE\<close>. So a stream
  that stops on a chunk boundary is reported as a failure, whatever was written before:
  this is the case when the chunks that arrive before the first read that returns
  nothing all fill the buffer and there are too few of them to hold \<open>totalSize\<close> bytes.
  A stream of chunks that pass the scans unchanged is reported as a success, with exactly
  its bytes in the file, when the transfer is opened, the chunks before the last are full
  and hold fewer than \<open>totalSize\<close> bytes, the last chunk is non-empty and either shorter
  than \<open>CHUNK_SIZE\<close> or enough to reach \<open>totalSize\<close>, and the card accepts all these
  bytes: in particular a stream that stops inside a chunk is a success, however many bytes
  \<open>totalSize\<close> still asks for.
\<close>

theorem success_and_short_streams:
  "(fst (downloadAudioFile_psram w0) \<longleftrightarrow>
      (case open_transfer w0 of
         Inl w \<Rightarrow> False
       | Inr (contentLength, w7) \<Rightarrow>
           totalDownloaded (fst (dl_loop contentLength \<lparr>totalDownloaded = 0, bufferOffset = 0\<rparr> w7))
             = contentLength))
   \<and> (truncated_run w0 \<longrightarrow> \<not> fst (downloadAudioFile_psram w0))
   \<and> (fst (downloadAudioFile w) \<longrightarrow>
        begin_ok w \<and> set_url_ok w \<and> get_code w = 200 \<and> sd_open_ok w
        \<and> (\<exists>f consumed. sd_file (snd (downloadAudioFile w)) = Some f
             \<and> bodies w = consumed @ bodies (snd (downloadAudioFile w))
             \<and> [] \<notin> set consumed
             \<and> (get_size w \<le> length f
                \<or> (consumed \<noteq> [] \<and> length (last consumed) < CHUNK_SIZE))))
   \<and> (bodies v = full @ rest \<and> (\<forall>c \<in> set full. CHUNK_SIZE \<le> length c)
        \<and> (rest = [] \<or> hd rest = [])
        \<and> CHUNK_SIZE * length full < get_size v
      \<longrightarrow> \<not> fst (downloadAudioFile v))
   \<and> (begin_ok u \<and> set_url_ok u \<and> get_code u = 200 \<and> sd_open_ok u
        \<and> bodies u = pre @ b # bs
        \<and> (\<forall>c \<in> set pre. length c = CHUNK_SIZE \<and> passes_scans c)
        \<and> b \<noteq> [] \<and> length b \<le> CHUNK_SIZE \<and> passes_scans b
        \<and> length (concat pre) < get_size u
        \<and> (length b < CHUNK_SIZE \<or> get_size u \<le> length (concat pre) + length b)
        \<and> length (concat pre) + length b \<le> sd_free u
      \<longrightarrow> fst (downloadAudioFile u)
          \<and> sd_file (snd (downloadAudioFile u)) = Some (concat pre @ b))"
proof -
  have psram: "(fst (downloadAudioFile_psram w0) \<longleftrightarrow>
      (case open_transfer w0 of
         Inl w \<Rightarrow> False
       | Inr (contentLength, w7) \<Rightarrow>
           totalDownloaded (fst (dl_loop contentLength \<lparr>totalDownloaded = 0, bufferOffset = 0\<rparr> w7))
             = contentLength))
   \<and> (truncated_run w0 \<longrightarrow> \<not> fst (downloadAudioFile_psram w0))"
  proof (cases "open_transfer w0")
    case (Inl w)
    then show ?thesis by (simp add: downloadAudioFile_psram_def truncated_run_def)
  next
    case (Inr p)
    obtain cl w7 where p: "p = (cl, w7)" by (cases p)
    let ?s0 = "\<lparr>totalDownloaded = 0, bufferOffset = 0\<rparr>"
    have res: "fst (downloadAudioFile_psram w0) = (totalDownloaded (fst (dl_loop cl ?s0 w7)) = cl)"
      using Inr p by (simp add: downloadAudioFile_psram_def Let_def split: prod.splits)
    have "totalDownloaded (fst (dl_loop cl ?s0 w7)) \<noteq> cl" if "truncated_run w0"
    proof -
      from that Inr p obtain s1 w1 where "(s1, w1) \<in> set (dl_states cl ?s0 w7)"
        "totalDownloaded s1 < cl" "stream_short w1"
        by (auto simp: truncated_run_def list_ex_iff)
      then show ?thesis by (rule dl_loop_truncated)
    qed
    with res Inr p show ?thesis by auto
  qed
  have need: "fst (downloadAudioFile w) \<longrightarrow>
        begin_ok w \<and> set_url_ok w \<and> get_code w = 200 \<and> sd_open_ok w
        \<and> (\<exists>f consumed. sd_file (snd (downloadAudioFile w)) = Some f
             \<and> bodies w = consumed @ bodies (snd (downloadAudioFile w))
             \<and> [] \<notin> set consumed
             \<and> (get_size w \<le> length f
                \<or> (consumed \<noteq> [] \<and> length (last consumed) < CHUNK_SIZE)))"
    using moh_success [of w] by blast
  have edge: "bodies v = full @ rest \<and> (\<forall>c \<in> set full. CHUNK_SIZE \<le> length c)
        \<and> (rest = [] \<or> hd rest = [])
        \<and> CHUNK_SIZE * length full < get_size v
      \<longrightarrow> \<not> fst (downloadAudioFile v)"
    using moh_boundary [of v full rest] by blast
  have clean: "begin_ok u \<and> set_url_ok u \<and> get_code u = 200 \<and> sd_open_ok u
        \<and> bodies u = pre @ b # bs
        \<and> (\<forall>c \<in> set pre. length c = CHUNK_SIZE \<and> passes_scans c)
        \<and> b \<noteq> [] \<and> length b \<le> CHUNK_SIZE \<and> passes_scans b
        \<and> length (concat pre) < get_size u
        \<and> (length b < CHUNK_SIZE \<or> get_size u \<le> length (concat pre) + length b)
        \<and> length (concat pre) + length b \<le> sd_free u
      \<longrightarrow> fst (downloadAudioFile u)
          \<and> sd_file (snd (downloadAudioFile u)) = Some (concat pre @ b)"
    using moh_clean_stream [of u pre b bs] by blast
  from psram need edge clean show ?thesis by (intro conjI) blast+
qed

theorem success_and_short_streams_witness:
  "truncated_run w_short \<and> \<not> fst (downloadAudioFile_psram w_short)
   \<and> fst (downloadAudioFile w_warn) \<and> sd_open_ok w_warn
   \<and> (\<exists>f consumed. sd_file (snd (downloadAudioFile w_warn)) = Some f
        \<and> bodies w_warn = consumed @ bodies (snd (downloadAudioFile w_warn))
        \<and> [] \<notin> set consumed
        \<and> (get_size w_warn \<le> length f
           \<or> (consumed \<noteq> [] \<and> length (last consumed) < CHUNK_SIZE)))
   \<and> bodies w_boundary = [replicate 1024 (CHR ''a'')] @ []
   \<and> CHUNK_SIZE * length [replicate 1024 (CHR ''a'')] < get_size w_boundary
   \<and> \<not> fst (downloadAudioFile w_boundary)
   \<and> bodies w_inside = [replicate 1024 (CHR ''a'')] @ ''A'' # []
   \<and> length (concat [replicate 1024 (CHR ''a'')]) + length ''A'' < get_size w_inside
   \<and> fst (downloadAudioFile w_inside)
   \<and> sd_file (snd (downloadAudioFile w_inside)) = Some (replicate 1024 (CHR ''a'') @ ''A'')"
proof -
  note inst = success_and_short_streams [of w_short w_warn w_boundary
      "[replicate 1024 (CHR ''a'')]" "[]" w_inside
      "[replicate 1024 (CHR ''a'')]" "''A''" "[]"]
  have t: "truncated_run w_short"
    by (simp add: truncated_run_def stream_short_def w_short_def psram_evals)
  have r1: "\<not> fst (downloadAudioFile_psram w_short)" using inst t by blast
  have s: "fst (downloadAudioFile w_warn)"
    by (simp add: w_warn_def moh_evals scan_evals)
  have r2: "sd_open_ok w_warn
   \<and> (\<exists>f consumed. sd_file (snd (downloadAudioFile w_warn)) = Some f
        \<and> bodies w_warn = consumed @ bodies (snd (downloadAudioFile w_warn))
        \<and> [] \<notin> set consumed
        \<and> (get_size w_warn \<le> length f
           \<or> (consumed \<noteq> [] \<and> length (last consumed) < CHUNK_SIZE)))"
    using inst s by blast
  have e: "bodies w_boundary = [replicate 1024 (CHR ''a'')] @ []"
      "\<forall>c \<in> set [replicate 1024 (CHR ''a'')]. CHUNK_SIZE \<le> length c"
      "CHUNK_SIZE * length [replicate 1024 (CHR ''a'')] < get_size w_boundary"
    by (simp_all add: w_boundary_def silent_def CHUNK_SIZE_def)
  have r3: "\<not> fst (downloadAudioFile w_boundary)" using inst e by blast
  have full: "passes_scans (replicate 1024 (CHR ''a''))" "passes_scans ''A''"
    by (rule plus_free_passes, simp)+
  have l: "begin_ok w_inside \<and> set_url_ok w_inside \<and> get_code w_inside = 200 \<and> sd_open_ok w_inside"
    "bodies w_inside = [replicate 1024 (CHR ''a'')] @ ''A'' # []"
    "\<forall>c \<in> set [replicate 1024 (CHR ''a'')]. length c = CHUNK_SIZE \<and> passes_scans c"
    "''A'' \<noteq> [] \<and> length ''A'' \<le> CHUNK_SIZE" "length ''A'' < CHUNK_SIZE"
    "length (concat [replicate 1024 (CHR ''a'')]) < get_size w_inside"
    "length (concat [replicate 1024 (CHR ''a'')]) + length ''A'' \<le> sd_free w_inside"
    "length (concat [replicate 1024 (CHR ''a'')]) + length ''A'' < get_size w_inside"
    using full by (simp_all add: w_inside_def silent_def CHUNK_SIZE_def)
  have r4: "fst (downloadAudioFile w_inside)
      \<and> sd_file (snd (downloadAudioFile w_inside)) = Some (concat [replicate 1024 (CHR ''a'')] @ ''A'')"
    using inst l full(2) by blast
  then have r4': "fst (downloadAudioFile w_inside)
      \<and> sd_file (snd (downloadAudioFile w_inside)) = Some (replicate 1024 (CHR ''a'') @ ''A'')"
    by simp
  show ?thesis using t r1 s r2 e(1,3) r3 l(2,8) r4' by blast
qed


text \<open>
  The claim as stated fails on \<^verbatim>\<open>moh.cpp\<close>: two bytes are declared, one arrives, the
  short chunk ends the loop, and the function returns \<^verbatim>\<open>true\<close> after printing its
  warning; the file holds the one byte.
\<close>

theorem short_stream_counterexample:
  "get_size w_warn = 2 \<and> bodies w_warn = [''A'']
   \<and> fst (downloadAudioFile w_warn)
   \<and> sd_file (snd (downloadAudioFile w_warn)) = Some ''A''"
  by (simp add: w_warn_def moh_evals scan_evals)

text \<open>
  C2 (amended). If a chunk holds the token (a line end followed by \<^verbatim>\<open>+HTTP\<close>) at an index
  \<open>i\<close> with \<open>cleanStart + 10 \<le> i < cleanEnd - 10\<close>, where \<open>cleanStart\<close> and \<open>cleanEnd\<close>
  are the bounds the two edge scans leave for that chunk, the read loop returns
  \<^verbatim>\<open>false\<close> at that chunk and writes none of its bytes, whatever was read before.
\<close>

theorem interior_token_aborts:
  assumes "totalRead < totalSize" "bodies w = b # bs" "buffer = take CHUNK_SIZE b"
    "scan_start buffer + 10 \<le> i" "i < scan_end buffer - 10" "http_token_at buffer i"
  shows "\<exists>w'. rd_loop totalSize totalRead w = (False, totalRead, w')
              \<and> sd_file w' = sd_file w \<and> sd_free w' = sd_free w"
proof -
  have mid: "scan_middle buffer (scan_start buffer) (scan_end buffer)"
    using assms(4-6) unfolding scan_middle_iff by blast
  have ne: "0 < length buffer"
  proof (rule ccontr)
    assume "\<not> 0 < length buffer"
    then have "buffer = []" by simp
    then have "scan_end buffer = 0" by (simp add: scan_end_def)
    with assms(5) show False by simp
  qed
  have step: "rd_step totalRead w =
     (ReturnFalse, totalRead, https_end ((emit (Modem HttpsBody) w)\<lparr>bodies := bs\<rparr>))"
    using assms(2,3) mid ne
    by (simp add: rd_step_def https_body_def Let_def emit_def)
  show ?thesis
    using assms(1) step by (subst rd_loop.simps) (simp add: https_end_def emit_def)
qed

theorem interior_token_aborts_witness:
  "scan_start (take CHUNK_SIZE edge_free) + 10 \<le> 100
   \<and> 100 < scan_end (take CHUNK_SIZE edge_free) - 10
   \<and> http_token_at (take CHUNK_SIZE edge_free) 100
   \<and> fst (rd_loop 500 0 (silent\<lparr>bodies := [edge_free], sd_file := Some [], sd_free := 1000\<rparr>)) = False"
proof -
  let ?w = "silent\<lparr>bodies := [edge_free], sd_file := Some [], sd_free := 1000\<rparr>"
  have a: "scan_start (take CHUNK_SIZE edge_free) + 10 \<le> 100"
    by (simp add: edge_free_def CHUNK_SIZE_def scan_evals)
  have b: "100 < scan_end (take CHUNK_SIZE edge_free) - 10"
    by (simp add: edge_free_def CHUNK_SIZE_def scan_evals)
  have c: "http_token_at (take CHUNK_SIZE edge_free) 100"
    by (simp add: edge_free_def CHUNK_SIZE_def scan_evals)
  have d: "bodies ?w = edge_free # []" by (simp add: silent_def)
  from interior_token_aborts [OF _ d refl a b c, of 0 500] a b c show ?thesis by auto
qed

text \<open>
  The claim as stated fails: in the full chunk \<open>tainted\<close> the token stands at index 500,
  far from both edges, but the leading scan finds \<^verbatim>\<open>"\r+"\<close> at index 0 and moves
  \<open>cleanStart\<close> behind the next \<^verbatim>\<open>'\n'\<close>, which is the token's own; the middle scan
  starts at 511, and the download stores the last 523 bytes and reports success.
\<close>

theorem interior_token_counterexample:
  "length tainted = CHUNK_SIZE \<and> http_token_at tainted 500
   \<and> fst (downloadAudioFile w_tainted)
   \<and> sd_file (snd (downloadAudioFile w_tainted)) = Some (drop 501 tainted)"
proof -
  have "rd_step 0 (w_tainted\<lparr>trace := t, sd_file := Some []\<rparr>) =
      (NextChunk, 523,
        w_tainted\<lparr>trace := t @ [Modem HttpsBody, FileWrite 523 523], bodies := [],
                   sd_file := Some (drop 501 tainted), sd_free := 9477\<rparr>)" for t
    by (simp add: rd_step_def https_body_def emit_def file_write_def Let_def CHUNK_SIZE_def
        w_tainted_def silent_def tainted_length tainted_scan_start tainted_scan_end
        tainted_scan_middle tainted_head)
  then have "rd_loop 523 0 (w_tainted\<lparr>trace := t, sd_file := Some []\<rparr>) =
      (True, 523,
        w_tainted\<lparr>trace := t @ [Modem HttpsBody, FileWrite 523 523], bodies := [],
                   sd_file := Some (drop 501 tainted), sd_free := 9477\<rparr>)" for t
    by (subst rd_loop.simps, simp, subst rd_loop.simps, simp)
  then show ?thesis
    by (simp add: downloadAudioFile_def Let_def emit_def SD_exists_def SD_open_def https_end_def
        tainted_length tainted_token CHUNK_SIZE_def)
      (simp add: w_tainted_def silent_def https_end_def emit_def)
qed


text \<open>
  C3 (amended). Over the states a run of the PSRAM download loop passes through:
  \<open>totalDownloaded\<close> never decreases; if the modem never declares a chunk longer than
  the requested size, \<open>0 \<le> totalDownloaded \<le> contentLength\<close> throughout; and if it
  always declares exactly the requested size, \<open>bufferOffset\<close> stays within the arena
  capacity and no byte is stored past the arena end. (The offset is a \<open>size_t\<close>, so it
  is never negative.)
\<close>

theorem staging_invariants:
  "sorted (map (\<lambda>p. totalDownloaded (fst p))
      (dl_states contentLength \<lparr>totalDownloaded = 0, bufferOffset = 0\<rparr> w))
   \<and> (served (\<le>) contentLength \<lparr>totalDownloaded = 0, bufferOffset = 0\<rparr> w \<and> 0 \<le> contentLength
        \<longrightarrow> (\<forall>p \<in> set (dl_states contentLength \<lparr>totalDownloaded = 0, bufferOffset = 0\<rparr> w).
               0 \<le> totalDownloaded (fst p) \<and> totalDownloaded (fst p) \<le> contentLength))
   \<and> (served (=) contentLength \<lparr>totalDownloaded = 0, bufferOffset = 0\<rparr> w
        \<and> arena_hi w \<le> LARGE_BUFFER_SIZE
        \<longrightarrow> (\<forall>p \<in> set (dl_states contentLength \<lparr>totalDownloaded = 0, bufferOffset = 0\<rparr> w).
               bufferOffset (fst p) \<le> LARGE_BUFFER_SIZE \<and> arena_hi (snd p) \<le> LARGE_BUFFER_SIZE))"
proof (intro conjI impI)
  let ?s0 = "\<lparr>totalDownloaded = 0, bufferOffset = 0\<rparr>"
  show "sorted (map (\<lambda>p. totalDownloaded (fst p)) (dl_states contentLength ?s0 w))"
    using dl_states_mono by blast
  show "\<forall>p \<in> set (dl_states contentLength ?s0 w).
          0 \<le> totalDownloaded (fst p) \<and> totalDownloaded (fst p) \<le> contentLength"
    if "served (\<le>) contentLength ?s0 w \<and> 0 \<le> contentLength"
    using that by (intro dl_states_le) simp_all
  show "\<forall>p \<in> set (dl_states contentLength ?s0 w).
          bufferOffset (fst p) \<le> LARGE_BUFFER_SIZE \<and> arena_hi (snd p) \<le> LARGE_BUFFER_SIZE"
    if "served (=) contentLength ?s0 w \<and> arena_hi w \<le> LARGE_BUFFER_SIZE"
    using that by (intro dl_states_arena) (simp_all add: at_head_def LARGE_BUFFER_SIZE_def)
qed

theorem staging_invariants_witness:
  "served (\<le>) 1030 \<lparr>totalDownloaded = 0, bufferOffset = 0\<rparr> w_two
   \<and> served (=) 1030 \<lparr>totalDownloaded = 0, bufferOffset = 0\<rparr> w_two
   \<and> arena_hi w_two \<le> LARGE_BUFFER_SIZE
   \<and> map (\<lambda>p. (totalDownloaded (fst p), bufferOffset (fst p), arena_hi (snd p)))
        (dl_states 1030 \<lparr>totalDownloaded = 0, bufferOffset = 0\<rparr> w_two)
      = [(0, 0, 0), (1024, 1024, 1024), (1030, 0, 1030)]
   \<and> list_all (\<lambda>p. 0 \<le> totalDownloaded (fst p) \<and> totalDownloaded (fst p) \<le> 1030
                  \<and> bufferOffset (fst p) \<le> LARGE_BUFFER_SIZE
                  \<and> arena_hi (snd p) \<le> LARGE_BUFFER_SIZE)
        (dl_states 1030 \<lparr>totalDownloaded = 0, bufferOffset = 0\<rparr> w_two)"
proof -
  let ?s0 = "\<lparr>totalDownloaded = 0, bufferOffset = 0\<rparr>"
  have a: "served (\<le>) 1030 ?s0 w_two" by (simp add: psram_evals w_two_def)
  have b: "served (=) 1030 ?s0 w_two" by (simp add: psram_evals w_two_def)
  have c: "arena_hi w_two \<le> LARGE_BUFFER_SIZE" by (simp add: w_two_def silent_def)
  have d: "map (\<lambda>p. (totalDownloaded (fst p), bufferOffset (fst p), arena_hi (snd p)))
        (dl_states 1030 ?s0 w_two) = [(0, 0, 0), (1024, 1024, 1024), (1030, 0, 1030)]"
    by (simp add: psram_evals w_two_def)
  from staging_invariants [of 1030 w_two] a b c
  have "\<forall>p \<in> set (dl_states 1030 ?s0 w_two).
      0 \<le> totalDownloaded (fst p) \<and> totalDownloaded (fst p) \<le> 1030
      \<and> bufferOffset (fst p) \<le> LARGE_BUFFER_SIZE \<and> arena_hi (snd p) \<le> LARGE_BUFFER_SIZE"
    by auto
  then show ?thesis using a b c d by (simp add: list_all_iff)
qed


text \<open>
  The claim as stated, for all modem-declared chunk lengths, fails: the code compares
  the declared length with nothing. With 10 bytes to fetch and a header that declares
  20, \<open>totalDownloaded\<close> ends at 20; with 1024 bytes requested and a header that
  declares 3000000, the bytes are stored from offset 0 on, past the 2097152 bytes of the
  arena.
\<close>

theorem staging_invariants_counterexample:
  "declared_len w_greedy = 20
   \<and> request_size 10 \<lparr>totalDownloaded = 0, bufferOffset = 0\<rparr> = 10
   \<and> \<not> totalDownloaded (fst (dl_loop 10 \<lparr>totalDownloaded = 0, bufferOffset = 0\<rparr> w_greedy)) \<le> 10
   \<and> declared_len w_flood = 3000000
   \<and> request_size 3000000 \<lparr>totalDownloaded = 0, bufferOffset = 0\<rparr> = 1024
   \<and> \<not> arena_hi (snd (dl_loop 3000000 \<lparr>totalDownloaded = 0, bufferOffset = 0\<rparr> w_flood))
       \<le> LARGE_BUFFER_SIZE"
  by (simp add: psram_evals w_greedy_def w_flood_def)


text \<open>
  C4. The claim holds a short write during a flush to be fatal. At the last flush the
  code is not: three bytes are declared and staged, \<^verbatim>\<open>file.write\<close> stores none of
  them on a full card, the loop breaks with \<open>totalDownloaded = contentLength\<close>, and the
  download returns \<^verbatim>\<open>true\<close> over an empty file.
\<close>

theorem final_flush_short_write_reports_success:
  "fst (downloadAudioFile_psram w_cardfull)
   \<and> FileWrite 3 0 \<in> set (trace (snd (downloadAudioFile_psram w_cardfull)))
   \<and> sd_file (snd (downloadAudioFile_psram w_cardfull)) = Some []"
  by (simp add: w_cardfull_def psram_evals)


text \<open>
  C5. The claim has a control token at the leading edge trimmed before the chunk is
  counted. The code finds the token of \<open>leaky\<close> at index 0 (a \<^verbatim>\<open>'\n'\<close> followed by
  \<open>+\<close>), but its forward search for the end of the line starts at that very
  \<^verbatim>\<open>'\n'\<close>: \<open>cleanStart\<close> is 1, and the 15 bytes \<^verbatim>\<open>+HTTPREAD: 42\r\n\<close> are written to
  the file and counted with the 42 bytes of payload.
\<close>

theorem leading_token_is_kept:
  "at_response_at leaky 0 \<and> scan_start leaky = 1 \<and> scan_end leaky = length leaky
   \<and> fst (downloadAudioFile w_leaky)
   \<and> sd_file (snd (downloadAudioFile w_leaky))
       = Some (''+HTTPREAD: 42'' @ [CHR 0x0D, CHR 0x0A] @ replicate 42 (CHR ''A''))
   \<and> FileWrite 57 57 \<in> set (trace (snd (downloadAudioFile w_leaky)))"
  by (simp add: w_leaky_def leaky_def moh_evals scan_evals)


text \<open>
  C6 (amended). PSRAM variant: if the \<^verbatim>\<open>+HTTPACTION\<close> line carries a status other than
  200 or a length \<open>\<le> 0\<close>, the download returns \<^verbatim>\<open>false\<close>, having sent the request at
  most once, without a \<^verbatim>\<open>+HTTPREAD\<close> and without reading a payload byte. \<^verbatim>\<open>moh.cpp\<close>:
  a status other than 200 makes the download return \<^verbatim>\<open>false\<close> after at most one
  \<^verbatim>\<open>https_get\<close>; with such a status, or with a declared size of 0, no chunk is read.
\<close>

theorem rejected_header_reads_nothing:
  "(action_status w \<noteq> 200 \<or> action_length w \<le> 0 \<longrightarrow>
      \<not> fst (downloadAudioFile_psram w)
      \<and> chunks (snd (downloadAudioFile_psram w)) = chunks w
      \<and> \<not> list_ex payload_read (new_events w (snd (downloadAudioFile_psram w)))
      \<and> length (filter ((=) (SendAT HTTPACTION)) (new_events w (snd (downloadAudioFile_psram w)))) \<le> 1)
   \<and> (get_code w \<noteq> 200 \<longrightarrow>
      \<not> fst (downloadAudioFile w)
      \<and> length (filter ((=) (Modem HttpsGet)) (new_events w (snd (downloadAudioFile w)))) \<le> 1)
   \<and> (get_code w \<noteq> 200 \<or> get_size w = 0 \<longrightarrow>
      bodies (snd (downloadAudioFile w)) = bodies w
      \<and> \<not> list_ex payload_read (new_events w (snd (downloadAudioFile w))))"
  using psram_rejected [of w] moh_rejected [of w] moh_empty [of w] by blast

theorem rejected_header_reads_nothing_witness:
  "action_status w_404_psram \<noteq> 200
   \<and> \<not> fst (downloadAudioFile_psram w_404_psram)
   \<and> chunks (snd (downloadAudioFile_psram w_404_psram)) = chunks w_404_psram
   \<and> get_code w_404 \<noteq> 200
   \<and> \<not> fst (downloadAudioFile w_404)
   \<and> bodies (snd (downloadAudioFile w_404)) = bodies w_404
   \<and> get_size w_empty = 0
   \<and> bodies (snd (downloadAudioFile w_empty)) = bodies w_empty"
proof -
  have a: "action_status w_404_psram \<noteq> 200"
    by (simp add: w_404_psram_def silent_def)
  have b: "get_code w_404 \<noteq> 200" by (simp add: w_404_def silent_def)
  have c: "get_size w_empty = 0" by (simp add: w_empty_def silent_def)
  from rejected_header_reads_nothing [of w_404_psram] a
  have 1: "\<not> fst (downloadAudioFile_psram w_404_psram)
      \<and> chunks (snd (downloadAudioFile_psram w_404_psram)) = chunks w_404_psram" by blast
  from rejected_header_reads_nothing [of w_404] b
  have 2: "\<not> fst (downloadAudioFile w_404) \<and> bodies (snd (downloadAudioFile w_404)) = bodies w_404"
    by blast
  from rejected_header_reads_nothing [of w_empty] c
  have 3: "bodies (snd (downloadAudioFile w_empty)) = bodies w_empty" by blast
  from a b c 1 2 3 show ?thesis by blast
qed


text \<open>
  The claim as stated fails on \<^verbatim>\<open>moh.cpp\<close>, which never tests the declared size: with
  status 200 and size 0 the loop is skipped and the download returns \<^verbatim>\<open>true\<close>.
\<close>

theorem zero_size_counterexample:
  "get_code w_empty = 200 \<and> get_size w_empty = 0 \<and> fst (downloadAudioFile w_empty)"
  by (simp add: w_empty_def moh_evals)


text \<open>
  C7 (amended). Of the baud-raise step only the verification is non-fatal, and only
  \<^verbatim>\<open>moh.cpp\<close> has one: when \<^verbatim>\<open>+IPR=921600\<close> is acknowledged, \<^verbatim>\<open>powerOnModem\<close>
  returns \<^verbatim>\<open>true\<close>, at 921600 baud if one of the next seven probes is answered and back
  at 115200 baud if none is. When the command is not acknowledged, \<^verbatim>\<open>powerOnModem\<close>
  returns \<^verbatim>\<open>false\<close> in both variants: it succeeds exactly when the bring-up succeeded
  and the command was acknowledged.
\<close>

theorem baud_command_failure_is_fatal:
  "(fst (powerOnModem w) \<longleftrightarrow> fst (bring_up w) \<and> take 1 (acks (snd (bring_up w))) = [1])
   \<and> (fst (powerOnModem_psram w) \<longleftrightarrow>
        fst (bring_up_psram w) \<and> take 1 (acks (snd (bring_up_psram w))) = [1])
   \<and> (take 1 (acks w) = [1] \<longrightarrow>
        fst (raise_speed w)
        \<and> baud (snd (raise_speed w)) = (if list_ex id (take 7 (probes w)) then 921600 else 115200))"
  using raise_speed_baud [of w]
  by (auto simp: powerOnModem_def powerOnModem_psram_def raise_speed_result
      raise_speed_psram_result split: prod.splits)

theorem baud_command_failure_is_fatal_witness:
  "take 1 (acks w_fallback) = [1]
   \<and> fst (raise_speed w_fallback)
   \<and> baud (snd (raise_speed w_fallback)) = 115200"
proof -
  have a: "take 1 (acks w_fallback) = [1]" by (simp add: w_fallback_def silent_def)
  have b: "\<not> list_ex id (take 7 (probes w_fallback))" by (simp add: w_fallback_def silent_def)
  from baud_command_failure_is_fatal [of w_fallback] a b show ?thesis by simp
qed

text \<open>
  The claim as stated fails: the modem answers the probes and the soft reset, the
  \<^verbatim>\<open>+IPR\<close> command times out, \<^verbatim>\<open>powerOnModem\<close> returns \<^verbatim>\<open>false\<close>, and the cycle ends
  without a download being tried.
\<close>

theorem baud_command_failure_counterexample:
  "fst (bring_up w_noack)
   \<and> take 1 (acks (snd (bring_up w_noack))) = [0]
   \<and> \<not> fst (powerOnModem w_noack)
   \<and> Modem HttpsBegin \<notin> set (trace (checkForNewAudio w_noack))"
  by (simp add: w_noack_def link_evals)


text \<open>
  C8. In \<^verbatim>\<open>connectNetwork\<close> of \<^verbatim>\<open>moh.cpp\<close>: if a SIM poll within the budget of 30
  answers \<open>SIM_LOCKED\<close> (none before it having answered ready or locked), the connect
  fails and no further SIM poll, registration poll or bearer activation is made; if the
  SIM is ready and a registration poll within the budget of 60 answers \<open>REG_DENIED\<close>
  (none before it having answered home, roaming or denied), the connect fails and no
  further registration poll or bearer activation is made; and a registration answer of
  home or roaming alike passes the gate, so that the connect succeeds when the bearer
  comes up at once with a valid address.
\<close>

theorem locked_and_denied_stop_at_once:
  "(sims w = pre @ SIM_LOCKED # rest \<and> length pre < 30 \<and> SIM_READY \<notin> set pre
      \<and> SIM_LOCKED \<notin> set pre
     \<longrightarrow> \<not> fst (connectNetwork w) \<and> sims (snd (connectNetwork w)) = rest
         \<and> regs (snd (connectNetwork w)) = regs w
         \<and> netacts (snd (connectNetwork w)) = netacts w)
   \<and> (sims w = spre @ SIM_READY # srest \<and> length spre < 30 \<and> SIM_READY \<notin> set spre
      \<and> SIM_LOCKED \<notin> set spre
      \<and> regs w = rpre @ REG_DENIED # rrest \<and> length rpre < 60 \<and> REG_OK_HOME \<notin> set rpre
      \<and> REG_OK_ROAMING \<notin> set rpre \<and> REG_DENIED \<notin> set rpre
     \<longrightarrow> \<not> fst (connectNetwork w) \<and> regs (snd (connectNetwork w)) = rrest
         \<and> netacts (snd (connectNetwork w)) = netacts w)
   \<and> (sims w = spre @ SIM_READY # srest \<and> length spre < 30 \<and> SIM_READY \<notin> set spre
      \<and> SIM_LOCKED \<notin> set spre
      \<and> regs w = rpre @ st # rrest \<and> (st = REG_OK_HOME \<or> st = REG_OK_ROAMING)
      \<and> length rpre < 60 \<and> REG_OK_HOME \<notin> set rpre
      \<and> REG_OK_ROAMING \<notin> set rpre \<and> REG_DENIED \<notin> set rpre
      \<and> netacts w = True # nrest \<and> local_ip w \<noteq> [] \<and> local_ip w \<noteq> ''0.0.0.0''
     \<longrightarrow> fst (connectNetwork w) \<and> regs (snd (connectNetwork w)) = rrest)"
  using connect_locked [of w pre rest] connect_denied [of w spre srest rpre rrest]
    connect_registered [of w spre srest rpre st rrest nrest]
  by blast

theorem locked_and_denied_stop_at_once_witness:
  "\<not> fst (connectNetwork w_locked) \<and> sims (snd (connectNetwork w_locked)) = [SIM_READY]
   \<and> regs (snd (connectNetwork w_locked)) = [REG_OK_HOME]
   \<and> \<not> fst (connectNetwork w_denied) \<and> regs (snd (connectNetwork w_denied)) = [REG_OK_HOME]
   \<and> netacts (snd (connectNetwork w_denied)) = [True]
   \<and> fst (connectNetwork w_roaming) \<and> regs (snd (connectNetwork w_roaming)) = []"
proof -
  have 1: "\<not> fst (connectNetwork w_locked) \<and> sims (snd (connectNetwork w_locked)) = [SIM_READY]
      \<and> regs (snd (connectNetwork w_locked)) = regs w_locked
      \<and> netacts (snd (connectNetwork w_locked)) = netacts w_locked"
    using locked_and_denied_stop_at_once
      [where w = w_locked and pre = "[SIM_ERROR]" and rest = "[SIM_READY]"]
    by (simp add: w_locked_def silent_def)
  have 2: "\<not> fst (connectNetwork w_denied) \<and> regs (snd (connectNetwork w_denied)) = [REG_OK_HOME]
      \<and> netacts (snd (connectNetwork w_denied)) = netacts w_denied"
    using locked_and_denied_stop_at_once
      [where w = w_denied and spre = "[]" and srest = "[]" and rpre = "[REG_SEARCHING]"
         and rrest = "[REG_OK_HOME]"]
    by (simp add: w_denied_def silent_def)
  have 3: "fst (connectNetwork w_roaming) \<and> regs (snd (connectNetwork w_roaming)) = []"
    using locked_and_denied_stop_at_once
      [where w = w_roaming and spre = "[SIM_ERROR]" and srest = "[]" and rpre = "[REG_SEARCHING]"
         and st = REG_OK_ROAMING and rrest = "[]" and nrest = "[]"]
    by (simp add: w_roaming_def silent_def)
  from 1 2 3 show ?thesis by (simp add: w_locked_def w_denied_def silent_def)
qed


text \<open>
  C9. Whatever the modem, the network and the card do, the trace of a refresh cycle, in
  either variant, ends with the power-off pulse of \<^verbatim>\<open>shutdownModem\<close>, followed at most
  by events that do not touch the modem (the playback calls and a delay): on every exit
  path the power-down is invoked, and it is the last thing done to the link.
\<close>

theorem power_down_on_every_path:
  "(\<exists>pre post. trace (checkForNewAudio w) = pre @ shutdown_pulse @ post
        \<and> \<not> list_ex touches_modem post)
   \<and> (\<exists>pre post. trace (checkForNewAudio_psram w) = pre @ shutdown_pulse @ post
        \<and> \<not> list_ex touches_modem post)"
proof
  obtain on w1 where p: "powerOnModem w = (on, w1)" by (cases "powerOnModem w")
  obtain net w2 where c: "connectNetwork w1 = (net, w2)" by (cases "connectNetwork w1")
  obtain ok w3 where d: "downloadAudioFile w2 = (ok, w3)" by (cases "downloadAudioFile w2")
  consider "\<not> on" | "on" "\<not> net" | "on" "net" "\<not> ok" | "on" "net" "ok" "fileReady w"
    | "on" "net" "ok" "\<not> fileReady w" by blast
  then show "\<exists>pre post. trace (checkForNewAudio w) = pre @ shutdown_pulse @ post
        \<and> \<not> list_ex touches_modem post"
  proof cases
    case 1
    with p show ?thesis
      by (intro ends_down [where w = w1 and post = "[]"])
        (simp_all add: checkForNewAudio_def trace_shutdownModem)
  next
    case 2
    with p c show ?thesis
      by (intro ends_down [where w = w2 and post = "[]"])
        (simp_all add: checkForNewAudio_def trace_shutdownModem)
  next
    case 3
    with p c d show ?thesis
      by (intro ends_down [where w = "disconnectNetwork w3" and post = "[]"])
        (simp_all add: checkForNewAudio_def trace_shutdownModem Let_def)
  next
    case 4
    with p c d show ?thesis
      by (intro ends_down [where w = "disconnectNetwork w3"
            and post = "[StopSong, Delay 100, ConnectToFS]"])
        (simp_all add: checkForNewAudio_def trace_shutdownModem Let_def emit_def delay_def)
  next
    case 5
    with p c d show ?thesis
      by (intro ends_down [where w = "disconnectNetwork w3" and post = "[ConnectToFS]"])
        (simp_all add: checkForNewAudio_def trace_shutdownModem Let_def emit_def delay_def)
  qed
next
  let ?w0 = "if fileReady w then emit StopSong w else w"
  let ?post = "if fileReady w then [ConnectToFS] else []"
  obtain on w1 where p: "powerOnModem_psram ?w0 = (on, w1)" by (cases "powerOnModem_psram ?w0")
  obtain net w2 where c: "connectNetwork_psram w1 = (net, w2)" by (cases "connectNetwork_psram w1")
  obtain ok w3 where d: "downloadAudioFile_psram (w2\<lparr>psramBuf := [], arena_hi := 0\<rparr>) = (ok, w3)"
    by (cases "downloadAudioFile_psram (w2\<lparr>psramBuf := [], arena_hi := 0\<rparr>)")
  consider "\<not> on" | "on" "\<not> net" | "on" "net" "\<not> psram_ok w2"
    | "on" "net" "psram_ok w2" "\<not> ok" | "on" "net" "psram_ok w2" "ok" by blast
  then show "\<exists>pre post. trace (checkForNewAudio_psram w) = pre @ shutdown_pulse @ post
        \<and> \<not> list_ex touches_modem post"
  proof cases
    case 1
    with p show ?thesis
      by (intro ends_down [where w = w1 and post = ?post])
        (simp_all add: checkForNewAudio_psram_def trace_shutdownModem Let_def emit_def)
  next
    case 2
    with p c show ?thesis
      by (intro ends_down [where w = w2 and post = ?post])
        (simp_all add: checkForNewAudio_psram_def trace_shutdownModem Let_def emit_def)
  next
    case 3
    with p c show ?thesis
      by (intro ends_down [where w = "disconnectNetwork w2" and post = ?post])
        (simp_all add: checkForNewAudio_psram_def trace_shutdownModem Let_def emit_def)
  next
    case 4
    with p c d show ?thesis
      by (intro ends_down [where w = "disconnectNetwork w3" and post = ?post])
        (simp_all add: checkForNewAudio_psram_def trace_shutdownModem Let_def emit_def)
  next
    case 5
    with p c d show ?thesis
      by (intro ends_down [where w = "disconnectNetwork w3" and post = "[ConnectToFS]"])
        (simp_all add: checkForNewAudio_psram_def trace_shutdownModem Let_def emit_def)
  qed
qed


text \<open>
  C10 (amended). PSRAM variant: unless \<^verbatim>\<open>+HTTPINIT\<close>, the URL parameter and the
  request were acknowledged, the \<^verbatim>\<open>+HTTPACTION\<close> line arrived, its status is 200 and
  its length positive, the download returns \<^verbatim>\<open>false\<close> and the file on the card is what
  it was. \<^verbatim>\<open>moh.cpp\<close>: unless \<^verbatim>\<open>https_begin\<close> and \<^verbatim>\<open>https_set_url\<close> succeeded
  and the status is 200, the download returns \<^verbatim>\<open>false\<close> and the file is what it was.
\<close>

theorem rejected_transfer_keeps_file:
  "(\<not> (\<exists>a rest. acks w = 1 # 1 # a # 1 # 1 # rest)
      \<or> action_status w \<noteq> 200 \<or> action_length w \<le> 0 \<longrightarrow>
      \<not> fst (downloadAudioFile_psram w) \<and> sd_file (snd (downloadAudioFile_psram w)) = sd_file w)
   \<and> (\<not> begin_ok w \<or> \<not> set_url_ok w \<or> get_code w \<noteq> 200 \<longrightarrow>
      \<not> fst (downloadAudioFile w) \<and> sd_file (snd (downloadAudioFile w)) = sd_file w)"
  using psram_unopened [of w] moh_unopened [of w] by blast

theorem rejected_transfer_keeps_file_witness:
  "action_status w_404_psram \<noteq> 200
   \<and> sd_file (snd (downloadAudioFile_psram w_404_psram)) = Some ''old''
   \<and> get_code w_404 \<noteq> 200
   \<and> sd_file (snd (downloadAudioFile w_404)) = Some ''old''"
proof -
  have a: "action_status w_404_psram \<noteq> 200" "sd_file w_404_psram = Some ''old''"
    by (simp_all add: w_404_psram_def silent_def)
  have b: "get_code w_404 \<noteq> 200" "sd_file w_404 = Some ''old''"
    by (simp_all add: w_404_def silent_def)
  from rejected_transfer_keeps_file [of w_404_psram] a
  have 1: "sd_file (snd (downloadAudioFile_psram w_404_psram)) = Some ''old''" by simp
  from rejected_transfer_keeps_file [of w_404] b
  have 2: "sd_file (snd (downloadAudioFile w_404)) = Some ''old''" by simp
  from a b 1 2 show ?thesis by blast
qed


text \<open>
  The claim as stated fails on \<^verbatim>\<open>moh.cpp\<close>: with status 200 and a declared size of 0
  the old file is removed and an empty one takes its place.
\<close>

theorem old_file_removed_counterexample:
  "get_size w_empty = 0 \<and> sd_file w_empty = Some ''old''
   \<and> sd_file (snd (downloadAudioFile w_empty)) = Some []"
  by (simp add: w_empty_def moh_evals)

end
